theory Spec2Isabelle
  imports Complex_Main "HOL-Library.Log_Nat"
begin

section \<open>JavaScript values\<close>

text \<open>
  The program is \<^verbatim>\<open>call_foursquare.js\<close>: \<^verbatim>\<open>processUserInput\<close>, \<^verbatim>\<open>searchPlaces\<close> and
  \<^verbatim>\<open>generateTrip\<close>. It is dynamically typed, and the values it handles come from two
  HTTP endpoints, so the embedding works on a datatype of JavaScript values and writes
  out what each operation of the source does on every one of them.

  A JavaScript string is the sequence of its UTF-16 code units; a code unit is a
  \<^typ>\<open>nat\<close> here (always below 65536 in a real string). \<open>js\<close> embeds an ASCII literal.
\<close>

type_synonym jsstring = "nat list"

definition js :: "string \<Rightarrow> jsstring" where
  "js s = map of_char s"

text \<open>
  A JavaScript number is an IEEE double: a not-a-number, an infinity, or a finite value,
  here the rational it denotes (the two zeros are one value: the program never tells
  them apart).
\<close>

datatype jsnum = NaN | Infinity | NegInfinity | Number rat

datatype jsval =
    Undefined
  | Null
  | Bool bool
  | Num jsnum
  | Str jsstring
  | Arr "jsval list"
  | Obj "(jsstring \<times> jsval) list"

text \<open>
  What a \<^verbatim>\<open>throw\<close> carries. \<open>HttpError\<close> is the rejection of an axios call, with its
  message; the others are the runtime's own errors.
\<close>

datatype js_error = HttpError jsstring | TypeError | SyntaxError | RangeError

fun bindE :: "'e + 'a \<Rightarrow> ('a \<Rightarrow> 'e + 'b) \<Rightarrow> 'e + 'b" where
  "bindE (Inl e) f = Inl e"
| "bindE (Inr v) f = f v"

text \<open>\<open>mapE f xs\<close>: \<^verbatim>\<open>xs.map(f)\<close> where \<open>f\<close> may throw; the first throw ends the loop.\<close>

fun mapE :: "('a \<Rightarrow> 'e + 'b) \<Rightarrow> 'a list \<Rightarrow> 'e + 'b list" where
  "mapE f [] = Inr []"
| "mapE f (x # xs) = bindE (f x) (\<lambda>y. bindE (mapE f xs) (\<lambda>ys. Inr (y # ys)))"

text \<open>
  The parts of the runtime that are not modelled are parameters, so that every theorem
  holds whatever they do: the conversion to a number of a string, an array or an object
  (which may throw), and the decimal text of a number that is not a small natural (it is
  needed only to read a property of a plain object by such a number).
\<close>

record runtime =
  ToNumber_other :: "jsval \<Rightarrow> js_error + jsnum"
  NumberToString :: "jsnum \<Rightarrow> jsstring"

fun truthy :: "jsval \<Rightarrow> bool" where
  "truthy Undefined = False"
| "truthy Null = False"
| "truthy (Bool b) = b"
| "truthy (Num NaN) = False"
| "truthy (Num (Number q)) = (q \<noteq> 0)"
| "truthy (Num Infinity) = True"
| "truthy (Num NegInfinity) = True"
| "truthy (Str s) = (s \<noteq> [])"
| "truthy (Arr xs) = True"
| "truthy (Obj kvs) = True"

fun to_number :: "runtime \<Rightarrow> jsval \<Rightarrow> js_error + jsnum" where
  "to_number rt Undefined = Inr NaN"
| "to_number rt Null = Inr (Number 0)"
| "to_number rt (Bool b) = Inr (Number (if b then 1 else 0))"
| "to_number rt (Num n) = Inr n"
| "to_number rt v = ToNumber_other rt v"

text \<open>The decimal digits of a natural number.\<close>

fun decimal :: "nat \<Rightarrow> jsstring" where
  "decimal n = (if n < 10 then [48 + n] else decimal (n div 10) @ [48 + n mod 10])"

declare decimal.simps [simp del]

text \<open>The natural number a number is, if it is one.\<close>

fun as_index :: "jsnum \<Rightarrow> nat option" where
  "as_index (Number q) =
     (if 0 \<le> q \<and> of_int \<lfloor>q\<rfloor> = q then Some (nat \<lfloor>q\<rfloor>) else None)"
| "as_index n = None"

text \<open>The property key a number stands for (\<^verbatim>\<open>ToString\<close>).\<close>

definition number_key :: "runtime \<Rightarrow> jsnum \<Rightarrow> jsstring" where
  "number_key rt n =
     (case as_index n of
        Some i \<Rightarrow> if i < 10 ^ 21 then decimal i else NumberToString rt n
      | None \<Rightarrow> if n = NaN then js ''NaN'' else NumberToString rt n)"

text \<open>
  \<^verbatim>\<open>v.name\<close> for the names the program reads (\<^verbatim>\<open>data\<close>'s \<^verbatim>\<open>candidates\<close>,
  \<^verbatim>\<open>content\<close>, \<^verbatim>\<open>parts\<close>, \<^verbatim>\<open>text\<close>, \<^verbatim>\<open>results\<close>, \<^verbatim>\<open>categories\<close>, \<^verbatim>\<open>location\<close>,
  \<^verbatim>\<open>duration\<close>, \<^verbatim>\<open>length\<close>): reading a property of \<^verbatim>\<open>undefined\<close> or \<^verbatim>\<open>null\<close> throws a
  TypeError; an object gives its own property, an array and a string their length, and
  a property nothing has is \<^verbatim>\<open>undefined\<close>.
\<close>

fun get_prop :: "jsval \<Rightarrow> jsstring \<Rightarrow> js_error + jsval" where
  "get_prop Undefined k = Inl TypeError"
| "get_prop Null k = Inl TypeError"
| "get_prop (Obj kvs) k = Inr (case map_of kvs k of Some v \<Rightarrow> v | None \<Rightarrow> Undefined)"
| "get_prop (Arr xs) k =
     Inr (if k = js ''length'' then Num (Number (of_nat (length xs))) else Undefined)"
| "get_prop (Str s) k =
     Inr (if k = js ''length'' then Num (Number (of_nat (length s))) else Undefined)"
| "get_prop v k = Inr Undefined"

text \<open>\<^verbatim>\<open>v[n]\<close> for a number \<open>n\<close>.\<close>

fun get_elem :: "runtime \<Rightarrow> jsval \<Rightarrow> jsnum \<Rightarrow> js_error + jsval" where
  "get_elem rt Undefined n = Inl TypeError"
| "get_elem rt Null n = Inl TypeError"
| "get_elem rt (Arr xs) n =
     Inr (case as_index n of
            Some i \<Rightarrow> if i < length xs then xs ! i else Undefined
          | None \<Rightarrow> Undefined)"
| "get_elem rt (Str s) n =
     Inr (case as_index n of
            Some i \<Rightarrow> if i < length s then Str [s ! i] else Undefined
          | None \<Rightarrow> Undefined)"
| "get_elem rt (Obj kvs) n =
     Inr (case map_of kvs (number_key rt n) of Some v \<Rightarrow> v | None \<Rightarrow> Undefined)"
| "get_elem rt v n = Inr Undefined"

text \<open>
  \<^verbatim>\<open>i % n\<close> for an index \<open>i\<close> (a natural number below \<open>2^32\<close>): not-a-number when \<open>n\<close>
  is zero or not a number, \<open>i\<close> when \<open>n\<close> is infinite, and else the remainder of the
  truncated division, which has the sign of \<open>i\<close>.
\<close>

fun js_rem :: "nat \<Rightarrow> jsnum \<Rightarrow> jsnum" where
  "js_rem i NaN = NaN"
| "js_rem i Infinity = Number (of_nat i)"
| "js_rem i NegInfinity = Number (of_nat i)"
| "js_rem i (Number q) =
     (if q = 0 then NaN
      else Number (of_nat i - \<bar>q\<bar> * of_int \<lfloor>of_nat i / \<bar>q\<bar>\<rfloor>))"

text \<open>
  \<^verbatim>\<open>ToLength\<close>: the integer part, cut to \<open>0 .. 2^53 - 1\<close>.
\<close>

fun to_length :: "jsnum \<Rightarrow> nat" where
  "to_length NaN = 0"
| "to_length Infinity = 2 ^ 53 - 1"
| "to_length NegInfinity = 0"
| "to_length (Number q) = min (nat \<lfloor>q\<rfloor>) (2 ^ 53 - 1)"

text \<open>
  \<^verbatim>\<open>Array.from({ length: v }, (_, i) => f(i))\<close>: the length is converted, an array of
  that length is created (a RangeError beyond \<open>2^32 - 1\<close>), and \<open>f\<close> fills it from
  index 0 on.
\<close>

definition array_from :: "runtime \<Rightarrow> jsval \<Rightarrow> (nat \<Rightarrow> js_error + jsval) \<Rightarrow> js_error + jsval" where
  "array_from rt v f =
     bindE (to_number rt v) (\<lambda>n.
       if to_length n > 2 ^ 32 - 1 then Inl RangeError
       else bindE (mapE f [0 ..< to_length n]) (\<lambda>xs. Inr (Arr xs)))"

section \<open>The itinerary\<close>

text \<open>
  \<^verbatim>\<open>categoryPlaces[i % categoryPlaces.length]\<close> (line 143).
\<close>

definition pick :: "runtime \<Rightarrow> nat \<Rightarrow> jsval \<Rightarrow> js_error + jsval" where
  "pick rt i categoryPlaces =
     bindE (get_prop categoryPlaces (js ''length'')) (\<lambda>len.
     bindE (to_number rt len) (\<lambda>n.
       get_elem rt categoryPlaces (js_rem i n)))"

text \<open>
  The callback of \<^verbatim>\<open>Array.from\<close> (lines 139 to 145): the day's number and one place of
  each category's results, the falsy ones filtered out.
\<close>

definition itinerary_day :: "runtime \<Rightarrow> jsval list \<Rightarrow> nat \<Rightarrow> js_error + jsval" where
  "itinerary_day rt placesResults i =
     bindE (mapE (pick rt i) placesResults) (\<lambda>picked.
       Inr (Obj [(js ''day'', Num (Number (of_nat i + 1))),
                 (js ''places'', Arr (filter truthy picked))]))"

section \<open>Strings\<close>

text \<open>
  \<^verbatim>\<open>s.replace(/p/g, '')\<close> for a pattern \<open>p\<close> that is a literal text: the matches are
  found from left to right and do not overlap.
\<close>

fun remove_all :: "jsstring \<Rightarrow> jsstring \<Rightarrow> jsstring" where
  "remove_all p [] = []"
| "remove_all p (c # cs) =
     (if p \<noteq> [] \<and> take (length p) (c # cs) = p
      then remove_all p (drop (length p) (c # cs))
      else c # remove_all p cs)"

text \<open>
  The code units \<^verbatim>\<open>trim\<close> strips: the white space and the line terminators of the
  language.
\<close>

definition is_space :: "nat \<Rightarrow> bool" where
  "is_space c =
     (c = 9 \<or> c = 10 \<or> c = 11 \<or> c = 12 \<or> c = 13 \<or> c = 32 \<or> c = 160 \<or> c = 5760
      \<or> (8192 \<le> c \<and> c \<le> 8202) \<or> c = 8232 \<or> c = 8233 \<or> c = 8239 \<or> c = 8287
      \<or> c = 12288 \<or> c = 65279)"

definition trim :: "jsstring \<Rightarrow> jsstring" where
  "trim s = rev (dropWhile is_space (rev (dropWhile is_space s)))"

text \<open>\<^verbatim>\<open>s.indexOf(c)\<close> and \<^verbatim>\<open>s.lastIndexOf(c)\<close> for one code unit: \<open>-1\<close> when absent.\<close>

fun indexOf :: "jsstring \<Rightarrow> nat \<Rightarrow> int" where
  "indexOf [] c = - 1"
| "indexOf (x # xs) c =
     (if x = c then 0 else (let r = indexOf xs c in if r < 0 then - 1 else r + 1))"

definition lastIndexOf :: "jsstring \<Rightarrow> nat \<Rightarrow> int" where
  "lastIndexOf s c =
     (let r = indexOf (rev s) c in if r < 0 then - 1 else int (length s) - 1 - r)"

text \<open>
  \<^verbatim>\<open>s.slice(start, end)\<close>: a negative position counts from the end, every position is
  cut to the string, and an end before the start gives the empty string.
\<close>

definition slice :: "jsstring \<Rightarrow> int \<Rightarrow> int \<Rightarrow> jsstring" where
  "slice s start end =
     (let len = int (length s);
          from = (if start < 0 then max (len + start) 0 else min start len);
          to = (if end < 0 then max (len + end) 0 else min end len)
      in take (nat (to - from)) (drop (nat from) s))"

section \<open>JSON.parse\<close>

text \<open>
  The value of a number literal is rounded to the nearest double, ties to the even
  significand; beyond the largest double it is an infinity.
\<close>

definition pow2 :: "int \<Rightarrow> rat" where
  "pow2 e = (if 0 \<le> e then 2 ^ nat e else 1 / 2 ^ nat (- e))"

definition round_half_even :: "rat \<Rightarrow> int" where
  "round_half_even q =
     (let f = \<lfloor>q\<rfloor>; r = q - of_int f
      in if r < 1 / 2 then f else if 1 / 2 < r then f + 1 else if even f then f else f + 1)"

text \<open>For \<open>a > 0\<close>, the \<open>e\<close> with \<open>2^e \<le> a < 2^(e+1)\<close>.\<close>

definition binary_exponent :: "rat \<Rightarrow> int" where
  "binary_exponent a =
     (let k = bitlen (fst (quotient_of a)) - bitlen (snd (quotient_of a))
      in if pow2 k \<le> a then k else k - 1)"

definition round_double :: "rat \<Rightarrow> jsnum" where
  "round_double q =
     (if q = 0 then Number 0
      else
        let a = \<bar>q\<bar>;
            p = max (binary_exponent a - 52) (- 1074);
            v = of_int (round_half_even (a / pow2 p)) * pow2 p
        in if 2 ^ 1024 \<le> v then (if 0 < q then Infinity else NegInfinity)
           else Number (if 0 < q then v else - v))"

definition is_json_space :: "nat \<Rightarrow> bool" where
  "is_json_space c = (c = 32 \<or> c = 9 \<or> c = 10 \<or> c = 13)"

definition skip_ws :: "jsstring \<Rightarrow> jsstring" where
  "skip_ws cs = dropWhile is_json_space cs"

definition is_digit :: "nat \<Rightarrow> bool" where
  "is_digit c = (48 \<le> c \<and> c \<le> 57)"

definition digits_value :: "jsstring \<Rightarrow> nat" where
  "digits_value ds = foldl (\<lambda>v d. 10 * v + (d - 48)) 0 ds"

definition hex_digit :: "nat \<Rightarrow> nat option" where
  "hex_digit c =
     (if 48 \<le> c \<and> c \<le> 57 then Some (c - 48)
      else if 65 \<le> c \<and> c \<le> 70 then Some (c - 55)
      else if 97 \<le> c \<and> c \<le> 102 then Some (c - 87)
      else None)"

text \<open>The code unit of a one-letter escape: \<^verbatim>\<open>\" \\ \/ \b \f \n \r \t\<close>.\<close>

definition escape_char :: "nat \<Rightarrow> nat option" where
  "escape_char c =
     (if c = 34 then Some 34 else if c = 92 then Some 92 else if c = 47 then Some 47
      else if c = 98 then Some 8 else if c = 102 then Some 12 else if c = 110 then Some 10
      else if c = 114 then Some 13 else if c = 116 then Some 9 else None)"

text \<open>
  A string, read from after its opening quote to its closing quote: the text it denotes
  and the rest of the input. A control character, an unknown escape or the end of the
  input before the closing quote is an error.
\<close>

datatype string_state = Plain | Escaped | Hex nat nat

fun scan_string :: "string_state \<Rightarrow> jsstring \<Rightarrow> jsstring \<Rightarrow> (jsstring \<times> jsstring) option" where
  "scan_string st acc [] = None"
| "scan_string Plain acc (c # cs) =
     (if c = 34 then Some (rev acc, cs)
      else if c = 92 then scan_string Escaped acc cs
      else if c < 32 then None
      else scan_string Plain (c # acc) cs)"
| "scan_string Escaped acc (c # cs) =
     (if c = 117 then scan_string (Hex 4 0) acc cs
      else case escape_char c of
             Some e \<Rightarrow> scan_string Plain (e # acc) cs
           | None \<Rightarrow> None)"
| "scan_string (Hex k v) acc (c # cs) =
     (case hex_digit c of
        None \<Rightarrow> None
      | Some d \<Rightarrow>
          if k \<le> 1 then scan_string Plain ((16 * v + d) # acc) cs
          else scan_string (Hex (k - 1) (16 * v + d)) acc cs)"

text \<open>
  A number: an optional minus, an integer part with no leading zero, an optional
  fraction and an optional exponent. \<open>parse_fraction\<close> and \<open>parse_exponent\<close> give the
  digits of the fraction and the exponent, and \<open>None\<close> when the point or the letter is
  not followed by a digit.
\<close>

definition parse_fraction :: "jsstring \<Rightarrow> (jsstring \<times> jsstring) option" where
  "parse_fraction cs =
     (if cs \<noteq> [] \<and> hd cs = 46 then
        (if takeWhile is_digit (tl cs) = [] then None
         else Some (takeWhile is_digit (tl cs), dropWhile is_digit (tl cs)))
      else Some ([], cs))"

definition parse_exponent :: "jsstring \<Rightarrow> (int \<times> jsstring) option" where
  "parse_exponent cs =
     (if cs \<noteq> [] \<and> (hd cs = 101 \<or> hd cs = 69) then
        (let cs1 = tl cs;
             neg = (cs1 \<noteq> [] \<and> hd cs1 = 45);
             cs2 = (if cs1 \<noteq> [] \<and> (hd cs1 = 45 \<or> hd cs1 = 43) then tl cs1 else cs1);
             ep = takeWhile is_digit cs2
         in if ep = [] then None
            else Some (if neg then - int (digits_value ep) else int (digits_value ep),
                       dropWhile is_digit cs2))
      else Some (0, cs))"

definition pow10 :: "int \<Rightarrow> rat" where
  "pow10 e = (if 0 \<le> e then 10 ^ nat e else 1 / 10 ^ nat (- e))"

definition parse_number :: "jsstring \<Rightarrow> (jsnum \<times> jsstring) option" where
  "parse_number cs =
     (let neg = (cs \<noteq> [] \<and> hd cs = 45);
          cs1 = (if neg then tl cs else cs);
          ip = takeWhile is_digit cs1
      in if ip = [] \<or> (1 < length ip \<and> hd ip = 48) then None
         else
           (case parse_fraction (dropWhile is_digit cs1) of
              None \<Rightarrow> None
            | Some (fp, cs2) \<Rightarrow>
                (case parse_exponent cs2 of
                   None \<Rightarrow> None
                 | Some (ex, cs3) \<Rightarrow>
                     Some (round_double
                             ((if neg then - 1 else 1) * of_nat (digits_value (ip @ fp))
                              / 10 ^ length fp * pow10 ex),
                           cs3))))"

text \<open>
  An object keeps its members in the order they were first written; a name written again
  replaces the value. (The runtime enumerates the names that are array indices first;
  the program only reads members by name, so the order is of no consequence here.)
\<close>

fun obj_put :: "(jsstring \<times> jsval) list \<Rightarrow> jsstring \<Rightarrow> jsval \<Rightarrow> (jsstring \<times> jsval) list" where
  "obj_put [] k v = [(k, v)]"
| "obj_put ((k', v') # kvs) k v =
     (if k' = k then (k, v) # kvs else (k', v') # obj_put kvs k v)"

datatype parsed = Failed | OutOfFuel | Parsed jsval jsstring

text \<open>A value that is not an object or an array: a string, a literal name or a number.\<close>

definition parse_atom :: "jsstring \<Rightarrow> parsed" where
  "parse_atom cs =
     (if cs \<noteq> [] \<and> hd cs = 34 then
        (case scan_string Plain [] (tl cs) of
           None \<Rightarrow> Failed
         | Some (s, rest) \<Rightarrow> Parsed (Str s) rest)
      else if take 4 cs = js ''true'' then Parsed (Bool True) (drop 4 cs)
      else if take 5 cs = js ''false'' then Parsed (Bool False) (drop 5 cs)
      else if take 4 cs = js ''null'' then Parsed Null (drop 4 cs)
      else
        (case parse_number cs of
           None \<Rightarrow> Failed
         | Some (q, rest) \<Rightarrow> Parsed (Num q) rest))"

text \<open>
  The recursive descent. The first argument bounds the depth of the recursion:
  \<open>JSON_parse\<close> starts it with more than the input can use (\<open>parse_value_fuel\<close> below).
  \<open>parse_elems\<close> starts at an element of an array, \<open>parse_members\<close> at a member of an
  object.
\<close>

fun parse_value :: "nat \<Rightarrow> jsstring \<Rightarrow> parsed"
  and parse_elems :: "nat \<Rightarrow> jsval list \<Rightarrow> jsstring \<Rightarrow> parsed"
  and parse_members :: "nat \<Rightarrow> (jsstring \<times> jsval) list \<Rightarrow> jsstring \<Rightarrow> parsed" where
  "parse_value 0 cs = OutOfFuel"
| "parse_value (Suc n) cs =
     (case skip_ws cs of
        [] \<Rightarrow> Failed
      | c # rest \<Rightarrow>
          if c = 123 then
            (case skip_ws rest of
               [] \<Rightarrow> Failed
             | c' # rest' \<Rightarrow>
                 if c' = 125 then Parsed (Obj []) rest' else parse_members n [] (skip_ws rest))
          else if c = 91 then
            (case skip_ws rest of
               [] \<Rightarrow> Failed
             | c' # rest' \<Rightarrow>
                 if c' = 93 then Parsed (Arr []) rest' else parse_elems n [] (skip_ws rest))
          else parse_atom (c # rest))"
| "parse_elems 0 acc cs = OutOfFuel"
| "parse_elems (Suc n) acc cs =
     (case parse_value n cs of
        Failed \<Rightarrow> Failed
      | OutOfFuel \<Rightarrow> OutOfFuel
      | Parsed v rest \<Rightarrow>
          (case skip_ws rest of
             [] \<Rightarrow> Failed
           | c # rest' \<Rightarrow>
               if c = 44 then parse_elems n (acc @ [v]) rest'
               else if c = 93 then Parsed (Arr (acc @ [v])) rest'
               else Failed))"
| "parse_members 0 acc cs = OutOfFuel"
| "parse_members (Suc n) acc cs =
     (case skip_ws cs of
        [] \<Rightarrow> Failed
      | c # rest \<Rightarrow>
          if c \<noteq> 34 then Failed
          else
            (case scan_string Plain [] rest of
               None \<Rightarrow> Failed
             | Some (k, rest1) \<Rightarrow>
                 (case skip_ws rest1 of
                    [] \<Rightarrow> Failed
                  | c1 # rest2 \<Rightarrow>
                      if c1 \<noteq> 58 then Failed
                      else
                        (case parse_value n rest2 of
                           Failed \<Rightarrow> Failed
                         | OutOfFuel \<Rightarrow> OutOfFuel
                         | Parsed v rest3 \<Rightarrow>
                             (case skip_ws rest3 of
                                [] \<Rightarrow> Failed
                              | c3 # rest4 \<Rightarrow>
                                  if c3 = 44 then parse_members n (obj_put acc k v) rest4
                                  else if c3 = 125 then Parsed (Obj (obj_put acc k v)) rest4
                                  else Failed)))))"

text \<open>
  \<^verbatim>\<open>JSON.parse(s)\<close>: one value, white space around it and nothing else; a SyntaxError
  otherwise.
\<close>

definition JSON_parse :: "jsstring \<Rightarrow> js_error + jsval" where
  "JSON_parse s =
     (case parse_value (2 * length s + 2) s of
        Parsed v rest \<Rightarrow> if skip_ws rest = [] then Inr v else Inl SyntaxError
      | Failed \<Rightarrow> Inl SyntaxError
      | OutOfFuel \<Rightarrow> Inl SyntaxError)"

section \<open>The environment\<close>

text \<open>
  The two API keys are read from the process environment (lines 8 and 9): each is a
  string or \<^verbatim>\<open>undefined\<close>.
\<close>

record env =
  FOURSQUARE_API_KEY :: "jsstring option"
  GEMINI_API_KEY :: "jsstring option"

text \<open>
  An HTTP request as axios is given it: \<^verbatim>\<open>axios.post(url, body, {headers})\<close> and
  \<^verbatim>\<open>axios.get(url, {headers, params})\<close>.
\<close>

datatype request =
    Post jsstring jsval "(jsstring \<times> jsval) list"
  | Get jsstring "(jsstring \<times> jsval) list" jsval

text \<open>
  The world outside the program answers the \<open>n\<close>-th request the program issues either
  by rejecting the call with an error or with the \<^verbatim>\<open>data\<close> of a response. The state the
  functions pass on is the list of the requests issued so far. What the program prints
  with \<^verbatim>\<open>console.error\<close> is not part of the model.
\<close>

type_synonym world = "nat \<Rightarrow> request \<Rightarrow> js_error + jsval"

definition http :: "world \<Rightarrow> request list \<Rightarrow> request \<Rightarrow> (js_error + jsval) \<times> request list" where
  "http w issued req = (w (length issued) req, issued @ [req])"

section \<open>processUserInput\<close>

text \<open>The template literal of lines 27 to 34, with the user's text in it.\<close>

definition prompt :: "jsstring \<Rightarrow> jsstring" where
  \<open>prompt userInput =
     js ''Return ONLY a JSON object (no backticks, no markdown) for this trip request: "''
     @ userInput
     @ js ''". \<newline>            Format: {\<newline>              "categories": [], \<newline>              "location": "city name",\<newline>              "duration": number,\<newline>              "pace": "low/medium/high pace",\<newline>              "budget": "low/medium/high"\<newline>            }''\<close>

definition key_value :: "jsstring option \<Rightarrow> jsval" where
  "key_value k = (case k of None \<Rightarrow> Undefined | Some s \<Rightarrow> Str s)"

definition gemini_request :: "env \<Rightarrow> jsstring \<Rightarrow> request" where
  "gemini_request e userInput =
     Post (js ''https://generativelanguage.googleapis.com/v1beta/models/gemini-2.0-flash:generateContent'')
       (Obj [(js ''contents'',
              Arr [Obj [(js ''parts'', Arr [Obj [(js ''text'', Str (prompt userInput))]])]])])
       [(js ''Content-Type'', Str (js ''application/json'')),
        (js ''X-goog-api-key'', key_value (GEMINI_API_KEY e))]"

text \<open>\<^verbatim>\<open>response.data.candidates[0].content.parts[0].text\<close> (line 47).\<close>

definition response_text :: "runtime \<Rightarrow> jsval \<Rightarrow> js_error + jsval" where
  "response_text rt data =
     bindE (get_prop data (js ''candidates'')) (\<lambda>candidates.
     bindE (get_elem rt candidates (Number 0)) (\<lambda>candidate.
     bindE (get_prop candidate (js ''content'')) (\<lambda>content.
     bindE (get_prop content (js ''parts'')) (\<lambda>parts.
     bindE (get_elem rt parts (Number 0)) (\<lambda>part.
       get_prop part (js ''text''))))))"

text \<open>
  \<^verbatim>\<open>generatedText.replace(...)\<close>: only a string has the method; calling it on anything
  else is a TypeError.
\<close>

definition as_text :: "jsval \<Rightarrow> js_error + jsstring" where
  "as_text v = (case v of Str s \<Rightarrow> Inr s | _ \<Rightarrow> Inl TypeError)"

definition fence :: jsstring where
  "fence = [96, 96, 96]"

text \<open>Lines 50 to 54: the fence markers and the newlines are removed, then the ends trimmed.\<close>

definition clean_text :: "jsstring \<Rightarrow> jsstring" where
  "clean_text generatedText =
     trim (filter (\<lambda>c. c \<noteq> 10) (remove_all fence (remove_all (fence @ js ''json'') generatedText)))"

text \<open>Lines 57 to 59: from the first opening brace to the last closing brace.\<close>

definition extract_json :: "jsstring \<Rightarrow> jsstring" where
  "extract_json generatedText =
     (let start = indexOf generatedText 123;
          end = lastIndexOf generatedText 125 + 1
      in slice generatedText start end)"

definition fallback :: jsval where
  "fallback =
     Obj [(js ''categories'', Arr [Str (js ''food''), Str (js ''culture''), Str (js ''nature'')]),
          (js ''location'', Str (js ''Montreal'')),
          (js ''duration'', Num (Number 3)),
          (js ''pace'', Str (js ''high'')),
          (js ''budget'', Str (js ''high''))]"

text \<open>The \<^verbatim>\<open>try\<close> block of \<^verbatim>\<open>processUserInput\<close> (lines 20 to 62).\<close>

definition processUserInput_try ::
  "runtime \<Rightarrow> env \<Rightarrow> world \<Rightarrow> request list \<Rightarrow> jsstring \<Rightarrow> (js_error + jsval) \<times> request list" where
  "processUserInput_try rt e w issued userInput =
     (let (response, issued') = http w issued (gemini_request e userInput)
      in (bindE response (\<lambda>data.
          bindE (response_text rt data) (\<lambda>text.
          bindE (as_text text) (\<lambda>generatedText.
            JSON_parse (extract_json (clean_text generatedText))))),
          issued'))"

text \<open>
  \<^verbatim>\<open>processUserInput\<close>: whatever the \<^verbatim>\<open>try\<close> block throws is caught (lines 64 to 75), its
  message logged, and the fallback returned.
\<close>

definition processUserInput ::
  "runtime \<Rightarrow> env \<Rightarrow> world \<Rightarrow> request list \<Rightarrow> jsstring \<Rightarrow> (js_error + jsval) \<times> request list" where
  "processUserInput rt e w issued userInput =
     (case processUserInput_try rt e w issued userInput of
        (Inl error, issued') \<Rightarrow> (Inr fallback, issued')
      | (Inr v, issued') \<Rightarrow> (Inr v, issued'))"

section \<open>searchPlaces\<close>

definition places_request :: "env \<Rightarrow> jsval \<Rightarrow> request" where
  "places_request e params =
     Get (js ''https://places-api.foursquare.com/places/search'')
       [(js ''X-Places-Api-Version'', Str (js ''2025-06-17'')),
        (js ''Accept'', Str (js ''application/json'')),
        (js ''Authorization'',
         Str (js ''Bearer '' @ (case FOURSQUARE_API_KEY e of None \<Rightarrow> js ''undefined'' | Some k \<Rightarrow> k)))]
       params"

text \<open>
  \<^verbatim>\<open>searchPlaces\<close> (lines 85 to 106): the \<^verbatim>\<open>results\<close> of the response's data; what the
  \<^verbatim>\<open>try\<close> block throws is logged and thrown again.
\<close>

definition searchPlaces ::
  "env \<Rightarrow> world \<Rightarrow> request list \<Rightarrow> jsval \<Rightarrow> (js_error + jsval) \<times> request list" where
  "searchPlaces e w issued params =
     (let (response, issued') = http w issued (places_request e params)
      in (case bindE response (\<lambda>data. get_prop data (js ''results'')) of
            Inl error \<Rightarrow> Inl error
          | Inr results \<Rightarrow> Inr results,
          issued'))"

section \<open>generateTrip\<close>

text \<open>
  \<^verbatim>\<open>xs.map(f)\<close> for an \<open>f\<close> that issues requests: the calls are made one after the
  other, each from the state the one before left.
\<close>

fun map_calls :: "('a \<Rightarrow> 's \<Rightarrow> 'b \<times> 's) \<Rightarrow> 'a list \<Rightarrow> 's \<Rightarrow> 'b list \<times> 's" where
  "map_calls f [] s = ([], s)"
| "map_calls f (x # xs) s =
     (let (y, s') = f x s; (ys, s'') = map_calls f xs s' in (y # ys, s''))"

text \<open>
  \<^verbatim>\<open>Promise.all\<close> on the outcomes of the calls: the list of the results when all
  succeeded, and a failure otherwise. With several failures the error is the one of the
  promise that is rejected first in time; here it is the first of the list, and no
  theorem depends on which it is.
\<close>

definition promise_all :: "(js_error + jsval) list \<Rightarrow> js_error + jsval list" where
  "promise_all outcomes = mapE (\<lambda>outcome. outcome) outcomes"

text \<open>The argument of \<^verbatim>\<open>searchPlaces\<close> at lines 126 to 131.\<close>

definition search_params :: "jsval \<Rightarrow> jsval \<Rightarrow> jsval" where
  "search_params category near =
     Obj [(js ''query'', category),
          (js ''near'', near),
          (js ''limit'', Num (Number 5)),
          (js ''sort'', Str (js ''RATING''))]"

text \<open>
  Lines 125 to 132: one call of \<^verbatim>\<open>searchPlaces\<close> for each category, in their order; the
  outcomes of the calls, and the requests issued. In the callback,
  \<^verbatim>\<open>tripPreferences.location\<close> cannot throw, since \<^verbatim>\<open>categories\<close> was read from the
  same value before: the error branch is only there for the types.
\<close>

definition search_all ::
  "env \<Rightarrow> world \<Rightarrow> jsval \<Rightarrow> jsval list \<Rightarrow> request list \<Rightarrow> (js_error + jsval) list \<times> request list" where
  "search_all e w tripPreferences categories issued =
     map_calls
       (\<lambda>category issued'.
          case get_prop tripPreferences (js ''location'') of
            Inl error \<Rightarrow> (Inl error, issued')
          | Inr near \<Rightarrow> searchPlaces e w issued' (search_params category near))
       categories issued"

text \<open>
  The \<^verbatim>\<open>try\<close> block of \<^verbatim>\<open>generateTrip\<close> (lines 119 to 151).
  \<^verbatim>\<open>tripPreferences.categories.map\<close> is a TypeError unless \<^verbatim>\<open>categories\<close> is an array.
\<close>

definition generateTrip_try ::
  "runtime \<Rightarrow> env \<Rightarrow> world \<Rightarrow> request list \<Rightarrow> jsstring \<Rightarrow> (js_error + jsval) \<times> request list" where
  "generateTrip_try rt e w issued userInput =
     (case processUserInput rt e w issued userInput of
        (Inl error, issued1) \<Rightarrow> (Inl error, issued1)
      | (Inr tripPreferences, issued1) \<Rightarrow>
          (case get_prop tripPreferences (js ''categories'') of
             Inl error \<Rightarrow> (Inl error, issued1)
           | Inr (Arr categories) \<Rightarrow>
               (let (placesPromises, issued2) =
                      search_all e w tripPreferences categories issued1
                in (bindE (promise_all placesPromises) (\<lambda>placesResults.
                    bindE (get_prop tripPreferences (js ''duration'')) (\<lambda>duration.
                    bindE (array_from rt duration (itinerary_day rt placesResults)) (\<lambda>itinerary.
                      Inr (Obj [(js ''preferences'', tripPreferences),
                                (js ''itinerary'', itinerary)])))),
                    issued2))
           | Inr other \<Rightarrow> (Inl TypeError, issued1)))"

text \<open>
  \<^verbatim>\<open>generateTrip\<close>: the \<^verbatim>\<open>catch\<close> of lines 153 to 156 logs the error and throws it again.
  The result is the plan or the error, with the requests that were issued.
\<close>

definition generateTrip ::
  "runtime \<Rightarrow> env \<Rightarrow> world \<Rightarrow> jsstring \<Rightarrow> (js_error + jsval) \<times> request list" where
  "generateTrip rt e w userInput =
     (case generateTrip_try rt e w [] userInput of
        (Inl error, issued) \<Rightarrow> (Inl error, issued)
      | (Inr plan, issued) \<Rightarrow> (Inr plan, issued))"

section \<open>The shape of the preferences\<close>

definition is_level :: "jsval \<Rightarrow> bool" where
  "is_level v = (v = Str (js ''low'') \<or> v = Str (js ''medium'') \<or> v = Str (js ''high''))"

fun is_string :: "jsval \<Rightarrow> bool" where
  "is_string (Str s) = True"
| "is_string v = False"

fun is_positive_integer :: "jsval \<Rightarrow> bool" where
  "is_positive_integer (Num (Number q)) = (0 < q \<and> of_int \<lfloor>q\<rfloor> = q)"
| "is_positive_integer v = False"

fun is_string_list :: "jsval \<Rightarrow> bool" where
  "is_string_list (Arr xs) = list_all is_string xs"
| "is_string_list v = False"

text \<open>
  TripPreferences as the specification describes it: an object whose \<^verbatim>\<open>categories\<close> is
  a sequence of strings, \<^verbatim>\<open>location\<close> a string, \<^verbatim>\<open>duration\<close> a positive integer, and
  \<^verbatim>\<open>pace\<close> and \<^verbatim>\<open>budget\<close> each one of low, medium, high.
\<close>

fun field :: "jsval \<Rightarrow> jsstring \<Rightarrow> jsval" where
  "field (Obj kvs) k = (case map_of kvs k of Some v \<Rightarrow> v | None \<Rightarrow> Undefined)"
| "field v k = Undefined"

fun is_object :: "jsval \<Rightarrow> bool" where
  "is_object (Obj kvs) = True"
| "is_object v = False"

definition conforms :: "jsval \<Rightarrow> bool" where
  "conforms v =
     (is_object v
      \<and> is_string_list (field v (js ''categories''))
      \<and> is_string (field v (js ''location''))
      \<and> is_positive_integer (field v (js ''duration''))
      \<and> is_level (field v (js ''pace''))
      \<and> is_level (field v (js ''budget'')))"

section \<open>Example runs\<close>

text \<open>
  A runtime, an environment and the bodies of the two endpoints' answers, for the
  concrete runs below: the generative endpoint's answer with the text \<open>t\<close>, and the
  places endpoint's answer with the results \<open>xs\<close>.
\<close>

definition example_runtime :: runtime where
  "example_runtime = \<lparr>ToNumber_other = (\<lambda>v. Inr NaN), NumberToString = (\<lambda>n. [])\<rparr>"

definition example_env :: env where
  "example_env = \<lparr>FOURSQUARE_API_KEY = Some (js ''fsq''), GEMINI_API_KEY = Some (js ''gem'')\<rparr>"

definition gemini_answer :: "jsstring \<Rightarrow> jsval" where
  "gemini_answer t =
     Obj [(js ''candidates'',
           Arr [Obj [(js ''content'', Obj [(js ''parts'', Arr [Obj [(js ''text'', Str t)]])])]])]"

definition places_answer :: "jsval list \<Rightarrow> jsval" where
  "places_answer xs = Obj [(js ''results'', Arr xs)]"

text \<open>
  \<open>text_world t\<close> answers every request with the text \<open>t\<close>, \<open>rejecting_world\<close> rejects
  every call, and \<open>quota_world\<close> answers with a body that has no candidates.
  The example world: the generative endpoint answers with the preferences below, the
  places endpoint with three, five and no results for the three categories; the second
  list holds a \<^verbatim>\<open>null\<close>. In \<open>failing_world\<close> the second search is rejected, and in
  \<open>long_trip_world\<close> the duration is \<open>2^32\<close>. The other texts are answers of the
  generative endpoint: cut short, with unbalanced braces, an empty object, the object
  of the specification in a fence, the same with sentences around the fence, the same
  with lines that end in a carriage return and a line feed, and an object with a string
  of one backtick, a line feed and two backticks.
\<close>

definition text_world :: "jsstring \<Rightarrow> world" where
  "text_world t n req = Inr (gemini_answer t)"

definition rejecting_world :: world where
  "rejecting_world n req = Inl (HttpError (js ''Network Error''))"

definition quota_world :: world where
  "quota_world n req = Inr (Obj [(js ''error'', Str (js ''quota''))])"

definition example_text :: jsstring where
  \<open>example_text =
     js ''{"categories":["a","b","c"],"location":"X","duration":6,"pace":"low","budget":"low"}''\<close>

definition example_preferences :: jsval where
  "example_preferences =
     Obj [(js ''categories'', Arr [Str (js ''a''), Str (js ''b''), Str (js ''c'')]),
          (js ''location'', Str (js ''X'')),
          (js ''duration'', Num (Number 6)),
          (js ''pace'', Str (js ''low'')),
          (js ''budget'', Str (js ''low''))]"

definition example_world :: world where
  "example_world n req =
     (if n = 0 then Inr (gemini_answer example_text)
      else if n = 1 then Inr (places_answer [Str (js ''a0''), Str (js ''a1''), Str (js ''a2'')])
      else if n = 2 then
        Inr (places_answer [Str (js ''b0''), Null, Str (js ''b2''), Str (js ''b3''), Str (js ''b4'')])
      else Inr (places_answer []))"

definition long_trip_text :: jsstring where
  \<open>long_trip_text =
     js ''{"categories":["a"],"location":"X","duration":4294967296,"pace":"low","budget":"low"}''\<close>

definition long_trip_preferences :: jsval where
  "long_trip_preferences =
     Obj [(js ''categories'', Arr [Str (js ''a'')]),
          (js ''location'', Str (js ''X'')),
          (js ''duration'', Num (Number 4294967296)),
          (js ''pace'', Str (js ''low'')),
          (js ''budget'', Str (js ''low''))]"

definition long_trip_world :: world where
  "long_trip_world n req =
     (if n = 0 then Inr (gemini_answer long_trip_text)
      else Inr (places_answer [Str (js ''a0'')]))"

definition failing_world :: world where
  "failing_world n req =
     (if n = 2 then Inl (HttpError (js ''Request failed with status code 500''))
      else example_world n req)"

definition truncated_text :: jsstring where
  \<open>truncated_text = js ''{"categories":["food"],"locat''\<close>

definition unbalanced_text :: jsstring where
  \<open>unbalanced_text = js ''{"a":{"b":1}''\<close>

definition empty_object_text :: jsstring where
  "empty_object_text = js ''{}''"










section \<open>Values, errors and loops\<close>

lemma js_eq_iff [simp]: "js a = js b \<longleftrightarrow> a = b"
proof -
  have "inj (of_char :: char \<Rightarrow> nat)"
    by (simp add: inj_on_def)
  then show ?thesis
    unfolding js_def by (simp add: inj_map_eq_map)
qed

lemma mapE_Inr_map:
  "(\<And>x. x \<in> set xs \<Longrightarrow> f x = Inr (g x)) \<Longrightarrow> mapE f xs = Inr (map g xs)"
  by (induction xs) simp_all

lemma bindE_Inr_iff:
  "bindE m f = Inr y \<longleftrightarrow> (\<exists>x. m = Inr x \<and> f x = Inr y)"
  by (cases m) simp_all

lemma bindE_Inl_iff:
  "bindE m f = Inl e \<longleftrightarrow> m = Inl e \<or> (\<exists>x. m = Inr x \<and> f x = Inl e)"
  by (cases m) simp_all

lemma mapE_Inr_list_all2:
  "mapE f xs = Inr ys \<Longrightarrow> list_all2 (\<lambda>x y. f x = Inr y) xs ys"
  by (induction xs arbitrary: ys) (auto simp: bindE_Inr_iff)

lemma mapE_Inl_mem:
  "x \<in> set xs \<Longrightarrow> f x = Inl e \<Longrightarrow> \<exists>e'. mapE f xs = Inl e'"
proof (induction xs)
  case Nil
  then show ?case by simp
next
  case (Cons a xs)
  show ?case
  proof (cases "f a")
    case (Inl e0)
    then show ?thesis by simp
  next
    case (Inr y)
    with Cons obtain e' where "mapE f xs = Inl e'" "x \<in> set xs \<or> x = a" by auto
    with Inr show ?thesis by simp
  qed
qed

lemma as_index_of_nat: "as_index (Number (of_nat k)) = Some k"
  by simp

lemma rem_of_nat:
  "(of_nat i :: rat) - \<bar>of_nat L\<bar> * of_int \<lfloor>(of_nat i :: rat) / \<bar>of_nat L\<bar>\<rfloor> = of_nat (i mod L)"
proof -
  have "\<lfloor>(of_nat i :: rat) / of_nat L\<rfloor> = int (i div L)"
    by (simp add: floor_divide_of_nat_eq)
  moreover have "int i - int L * int (i div L) = int (i mod L)"
    by (simp add: minus_mult_div_eq_mod of_nat_div of_nat_mod)
  then have "(of_int (int i - int L * int (i div L)) :: rat) = of_int (int (i mod L))"
    by simp
  ultimately show ?thesis by simp
qed

lemma js_rem_of_nat:
  "js_rem i (Number (of_nat L)) = (if L = 0 then NaN else Number (of_nat (i mod L)))"
  using rem_of_nat [of i L] by simp

lemma pick_Arr:
  "pick rt i (Arr xs) = Inr (if xs = [] then Undefined else xs ! (i mod length xs))"
  by (simp add: pick_def js_rem_of_nat as_index_of_nat del: js_rem.simps as_index.simps(1))

lemma itinerary_day_Arr:
  "itinerary_day rt (map Arr xss) i =
     Inr (Obj [(js ''day'', Num (Number (of_nat i + 1))),
               (js ''places'', Arr (filter truthy (map (\<lambda>xs. if xs = [] then Undefined else xs ! (i mod length xs)) xss)))])"
proof -
  have "mapE (pick rt i) (map Arr xss)
          = Inr (map (\<lambda>v. case v of Arr xs \<Rightarrow> if xs = [] then Undefined else xs ! (i mod length xs) | _ \<Rightarrow> Undefined) (map Arr xss))"
    by (rule mapE_Inr_map) (auto simp: pick_Arr)
  then show ?thesis
    by (simp add: itinerary_day_def comp_def)
qed

lemma to_length_of_nat: "to_length (Number (of_nat D)) = min D (2 ^ 53 - 1)"
  by simp

lemma array_from_of_nat:
  assumes "D < 2 ^ 32" and "\<And>i. i < D \<Longrightarrow> f i = Inr (g i)"
  shows "array_from rt (Num (Number (of_nat D))) f = Inr (Arr (map g [0 ..< D]))"
proof -
  have "(2::nat) ^ 32 \<le> 2 ^ 53 - 1" by simp
  with assms(1) have len: "to_length (Number (of_nat D)) = D"
    unfolding to_length_of_nat by linarith
  have "mapE f [0 ..< D] = Inr (map g [0 ..< D])"
    by (rule mapE_Inr_map) (simp add: assms(2))
  with len assms(1) show ?thesis
    by (simp add: array_from_def del: to_length.simps)
qed

lemma array_from_too_long:
  assumes "2 ^ 32 \<le> D"
  shows "array_from rt (Num (Number (of_nat D))) f = Inl RangeError"
proof -
  have "(2::nat) ^ 32 \<le> 2 ^ 53 - 1" by simp
  with assms have "2 ^ 32 \<le> to_length (Number (of_nat D))"
    unfolding to_length_of_nat by simp
  then show ?thesis
    by (simp add: array_from_def del: to_length.simps)
qed

lemma promise_all_Inr: "promise_all (map (\<lambda>x. Inr (g x)) xs) = Inr (map g xs)"
  unfolding promise_all_def by (induction xs) simp_all

lemma generateTrip_plan:
  assumes "processUserInput rt e w [] u = (Inr prefs, issued1)"
    and "get_prop prefs (js ''categories'') = Inr (Arr cats)"
    and "get_prop prefs (js ''duration'') = Inr (Num (Number (of_nat D)))"
    and "D < 2 ^ 32"
    and "fst (search_all e w prefs cats issued1) = map (\<lambda>xs. Inr (Arr xs)) xss"
  shows "fst (generateTrip rt e w u) =
           Inr (Obj [(js ''preferences'', prefs),
                     (js ''itinerary'',
                      Arr (map (\<lambda>i. Obj [(js ''day'', Num (Number (of_nat i + 1))),
                                          (js ''places'', Arr (filter truthy (map (\<lambda>xs. if xs = [] then Undefined else xs ! (i mod length xs)) xss)))])
                             [0 ..< D]))])"
proof -
  obtain outcomes issued2 where s: "search_all e w prefs cats issued1 = (outcomes, issued2)"
    by (cases "search_all e w prefs cats issued1")
  with assms(5) have "outcomes = map (\<lambda>xs. Inr (Arr xs)) xss"
    by simp
  then have p: "promise_all outcomes = Inr (map Arr xss)"
    by (simp only: promise_all_Inr)
  have a: "array_from rt (Num (Number (of_nat D))) (itinerary_day rt (map Arr xss))
             = Inr (Arr (map (\<lambda>i. Obj [(js ''day'', Num (Number (of_nat i + 1))),
                                          (js ''places'', Arr (filter truthy (map (\<lambda>xs. if xs = [] then Undefined else xs ! (i mod length xs)) xss)))])
                             [0 ..< D]))"
    by (rule array_from_of_nat [OF assms(4)]) (simp add: itinerary_day_Arr)
  show ?thesis
    by (simp add: generateTrip_def generateTrip_try_def assms(1,2,3) s p a)
qed

section \<open>Strings and the extraction of the JSON text\<close>

lemma indexOf_ge: "- 1 \<le> indexOf s c"
  by (induction s) (auto simp: Let_def)

lemma indexOf_notin: "c \<notin> set s \<Longrightarrow> indexOf s c = - 1"
  by (induction s) (auto simp: Let_def)

lemma indexOf_in:
  "c \<in> set s \<Longrightarrow> 0 \<le> indexOf s c \<and> indexOf s c < int (length s) \<and> s ! nat (indexOf s c) = c"
proof (induction s)
  case Nil
  then show ?case by simp
next
  case (Cons x xs)
  show ?case
  proof (cases "x = c")
    case True
    then show ?thesis by simp
  next
    case False
    with Cons have ih: "0 \<le> indexOf xs c" "indexOf xs c < int (length xs)" "xs ! nat (indexOf xs c) = c"
      by auto
    from ih(1) have "nat (indexOf xs c + 1) = Suc (nat (indexOf xs c))" by simp
    with False ih show ?thesis by (simp add: Let_def)
  qed
qed

lemma indexOf_hd: "indexOf (c # s) c = 0"
  by simp

lemma indexOf_zero: "indexOf s c = 0 \<Longrightarrow> s \<noteq> [] \<and> hd s = c"
  using indexOf_ge [of "tl s" c] by (cases s) (auto simp: Let_def split: if_splits)

lemma lastIndexOf_notin: "c \<notin> set s \<Longrightarrow> lastIndexOf s c = - 1"
  by (simp add: lastIndexOf_def indexOf_notin)

lemma lastIndexOf_bounds: "- 1 \<le> lastIndexOf s c \<and> lastIndexOf s c < int (length s)"
proof (cases "c \<in> set s")
  case True
  then have "c \<in> set (rev s)" by simp
  from indexOf_in [OF this] show ?thesis
    by (simp add: lastIndexOf_def Let_def)
next
  case False
  then show ?thesis by (simp add: lastIndexOf_notin)
qed

lemma lastIndexOf_last: "s \<noteq> [] \<Longrightarrow> last s = c \<Longrightarrow> lastIndexOf s c = int (length s) - 1"
proof -
  assume "s \<noteq> []" "last s = c"
  then obtain r where "rev s = c # r"
    by (cases "rev s") (auto simp: last_rev [symmetric] simp del: last_rev)
  then show ?thesis
    by (simp add: lastIndexOf_def)
qed

lemma lastIndexOf_end: "s \<noteq> [] \<Longrightarrow> lastIndexOf s c = int (length s) - 1 \<Longrightarrow> last s = c"
proof -
  assume ne: "s \<noteq> []" and l: "lastIndexOf s c = int (length s) - 1"
  have "indexOf (rev s) c = 0"
    using l ne indexOf_ge [of "rev s" c]
    by (auto simp: lastIndexOf_def Let_def split: if_splits)
  from indexOf_zero [OF this] have "hd (rev s) = c" by simp
  with ne show ?thesis by (simp add: hd_rev)
qed

lemma extract_json_no_close: "125 \<notin> set s \<Longrightarrow> extract_json s = []"
  by (simp add: extract_json_def lastIndexOf_notin slice_def Let_def)

lemma extract_json_no_open:
  assumes "123 \<notin> set s"
  shows "extract_json s = [] \<or> extract_json s = [125]"
proof (cases "s = []")
  case True
  then show ?thesis by (simp add: extract_json_def slice_def Let_def)
next
  case False
  have b: "- 1 \<le> lastIndexOf s 125" "lastIndexOf s 125 < int (length s)"
    using lastIndexOf_bounds [of s 125] by auto
  show ?thesis
  proof (cases "lastIndexOf s 125 = int (length s) - 1")
    case True
    with False have l: "last s = 125" by (rule lastIndexOf_end)
    from False have "drop (length s - Suc 0) s = [last s]"
      by (induction s) (auto simp: drop_Cons')
    moreover from False have "nat (int (length s) - 1) = length s - Suc 0"
      by (cases s) simp_all
    ultimately show ?thesis
      using True False l assms
      by (simp add: extract_json_def slice_def Let_def indexOf_notin)
  next
    case False
    with b have "lastIndexOf s 125 + 1 \<le> int (length s) - 1" by linarith
    with \<open>s \<noteq> []\<close> assms b show ?thesis
      by (simp add: extract_json_def slice_def Let_def indexOf_notin)
  qed
qed

lemma extract_json_open:
  assumes "123 \<in> set s"
  shows "extract_json s = [] \<or> (\<exists>r. extract_json s = 123 # r)"
proof -
  from indexOf_in [OF assms] have i: "0 \<le> indexOf s 123" "indexOf s 123 < int (length s)"
    "s ! nat (indexOf s 123) = 123" by auto
  define k where "k = nat (indexOf s 123)"
  with i have k: "k < length s" "s ! k = 123" "indexOf s 123 = int k" by auto
  have b: "- 1 \<le> lastIndexOf s 125" "lastIndexOf s 125 < int (length s)"
    using lastIndexOf_bounds [of s 125] by auto
  from k(1) have "drop k s = s ! k # drop (Suc k) s"
    by (rule Cons_nth_drop_Suc [symmetric])
  with k(2) have d: "drop k s = 123 # drop (Suc k) s"
    by simp
  have "extract_json s = take (nat (lastIndexOf s 125 + 1 - int k)) (drop k s)"
    using k b by (simp add: extract_json_def slice_def Let_def)
  then show ?thesis
    unfolding d by (cases "nat (lastIndexOf s 125 + 1 - int k)") auto
qed

lemma extract_json_cases:
  "extract_json s = [] \<or> extract_json s = [125] \<or> (\<exists>r. extract_json s = 123 # r)"
  using extract_json_no_open [of s] extract_json_open [of s] by blast

lemma JSON_parse_empty: "JSON_parse [] = Inl SyntaxError"
  by (simp add: JSON_parse_def numeral_2_eq_2 skip_ws_def)

lemma parse_value_close: "parse_value (Suc n) [125] = Failed"
  by (simp add: skip_ws_def is_json_space_def js_def parse_atom_def parse_number_def Let_def
      is_digit_def)

lemma JSON_parse_close: "JSON_parse [125] = Inl SyntaxError"
proof -
  have "2 * length [125::nat] + 2 = Suc 3" by simp
  then show ?thesis
    unfolding JSON_parse_def by (simp only: parse_value_close parsed.case)
qed

lemma parse_members_object: "parse_members n acc cs = Parsed v rest \<Longrightarrow> is_object v"
proof (induction n arbitrary: acc cs)
  case 0
  then show ?case by simp
next
  case (Suc n)
  then show ?case
    by (auto split: list.splits if_splits option.splits parsed.splits)
qed

lemma JSON_parse_open: "JSON_parse (123 # r) = Inr v \<Longrightarrow> is_object v"
proof -
  assume a: "JSON_parse (123 # r) = Inr v"
  have s: "skip_ws (123 # r) = 123 # r"
    by (simp add: skip_ws_def is_json_space_def)
  obtain n where n: "2 * length (123 # r) + 2 = Suc n" by simp
  from a obtain rest where p: "parse_value (Suc n) (123 # r) = Parsed v rest"
    unfolding JSON_parse_def n
    by (cases "parse_value (Suc n) (123 # r)") (simp_all del: parse_value.simps split: if_splits)
  have e: "parse_value (Suc n) (123 # r) =
          (case skip_ws r of
             [] \<Rightarrow> Failed
           | c' # rest' \<Rightarrow>
               if c' = 125 then Parsed (Obj []) rest' else parse_members n [] (skip_ws r))"
    by (simp add: s)
  have q: "(case skip_ws r of
             [] \<Rightarrow> Failed
           | c' # rest' \<Rightarrow>
               if c' = 125 then Parsed (Obj []) rest' else parse_members n [] (skip_ws r))
           = Parsed v rest"
    using p unfolding e .
  show ?thesis
  proof (cases "skip_ws r")
    case Nil
    with q show ?thesis by simp
  next
    case (Cons c' rest')
    show ?thesis
    proof (cases "c' = 125")
      case True
      with q Cons show ?thesis by auto
    next
      case False
      with q Cons have "parse_members n [] (c' # rest') = Parsed v rest" by simp
      then show ?thesis by (rule parse_members_object)
    qed
  qed
qed

lemma set_remove_all: "set (remove_all p s) \<subseteq> set s"
proof (induction p s rule: remove_all.induct)
  case (1 p)
  then show ?case by simp
next
  case (2 p c cs)
  show ?case
  proof (cases "p \<noteq> [] \<and> take (length p) (c # cs) = p")
    case True
    with 2 have "set (remove_all p (drop (length p) (c # cs))) \<subseteq> set (drop (length p) (c # cs))"
      by simp
    also have "\<dots> \<subseteq> set (c # cs)" by (rule set_drop_subset)
    finally show ?thesis using True by simp
  next
    case False
    with 2 show ?thesis by auto
  qed
qed

lemma set_trim: "set (trim s) \<subseteq> set s"
proof -
  have "set (trim s) \<subseteq> set (dropWhile is_space s)"
    unfolding trim_def using set_dropWhileD by fastforce
  also have "\<dots> \<subseteq> set s" using set_dropWhileD by fastforce
  finally show ?thesis .
qed

lemma set_clean_text: "set (clean_text t) \<subseteq> set t"
proof -
  have "set (clean_text t) \<subseteq> set (remove_all fence (remove_all (fence @ js ''json'') t))"
    unfolding clean_text_def using set_trim by fastforce
  also have "\<dots> \<subseteq> set (remove_all (fence @ js ''json'') t)" by (rule set_remove_all)
  also have "\<dots> \<subseteq> set t" by (rule set_remove_all)
  finally show ?thesis .
qed

lemma no_braces_no_json:
  assumes "123 \<notin> set t \<or> 125 \<notin> set t"
  shows "JSON_parse (extract_json (clean_text t)) = Inl SyntaxError"
proof -
  from assms set_clean_text [of t]
  have "123 \<notin> set (clean_text t) \<or> 125 \<notin> set (clean_text t)" by blast
  then have "extract_json (clean_text t) = [] \<or> extract_json (clean_text t) = [125]"
    using extract_json_no_open extract_json_no_close by blast
  then show ?thesis
    by (auto simp: JSON_parse_empty JSON_parse_close)
qed

section \<open>The parser consumes its input and has fuel enough\<close>

lemma skip_ws_Cons: "skip_ws cs = c # rest \<Longrightarrow> length rest < length cs"
proof -
  assume "skip_ws cs = c # rest"
  then have "Suc (length rest) = length (dropWhile is_json_space cs)"
    by (simp add: skip_ws_def)
  also have "\<dots> \<le> length cs" by (rule length_dropWhile_le)
  finally show ?thesis by simp
qed

lemma skip_ws_le: "length (skip_ws cs) \<le> length cs"
  unfolding skip_ws_def by (rule length_dropWhile_le)

lemma scan_string_shorter:
  "scan_string st acc cs = Some (s, rest) \<Longrightarrow> length rest < length cs"
proof (induction st acc cs rule: scan_string.induct)
  case (1 st acc)
  then show ?case by simp
next
  case (2 acc c cs)
  then show ?case by (auto split: if_splits)
next
  case (3 acc c cs)
  then show ?case by (auto split: if_splits option.splits)
next
  case (4 k v acc c cs)
  then show ?case by (auto split: if_splits option.splits)
qed

lemma takeWhile_dropWhile_length:
  "length (takeWhile P xs) + length (dropWhile P xs) = length xs"
  by (induction xs) simp_all

lemma tl_le: "length (tl xs) \<le> length xs"
  by simp

lemma parse_fraction_le:
  "parse_fraction cs = Some (fp, rest) \<Longrightarrow> length rest \<le> length cs"
  using length_dropWhile_le [of is_digit "tl cs"]
  by (auto simp: parse_fraction_def split: if_splits)

lemma parse_exponent_le:
  assumes "parse_exponent cs = Some (ex, rest)"
  shows "length rest \<le> length cs"
proof (cases "cs \<noteq> [] \<and> (hd cs = 101 \<or> hd cs = 69)")
  case True
  define cs2 where "cs2 = (if tl cs \<noteq> [] \<and> (hd (tl cs) = 45 \<or> hd (tl cs) = 43) then tl (tl cs) else tl cs)"
  have "length cs2 \<le> length cs" by (simp add: cs2_def)
  moreover from assms True have "rest = dropWhile is_digit cs2"
    unfolding parse_exponent_def Let_def cs2_def by (auto split: if_splits)
  ultimately show ?thesis
    using length_dropWhile_le [of is_digit cs2] by simp
next
  case False
  with assms show ?thesis
    unfolding parse_exponent_def by (simp split: if_splits)
qed

lemma parse_number_shorter:
  assumes "parse_number cs = Some (q, rest)"
  shows "length rest < length cs"
proof -
  define cs1 where "cs1 = (if cs \<noteq> [] \<and> hd cs = 45 then tl cs else cs)"
  have n: "parse_number cs =
        (if takeWhile is_digit cs1 = [] \<or> (1 < length (takeWhile is_digit cs1) \<and> hd (takeWhile is_digit cs1) = 48) then None
         else
           (case parse_fraction (dropWhile is_digit cs1) of
              None \<Rightarrow> None
            | Some (fp, cs2) \<Rightarrow>
                (case parse_exponent cs2 of
                   None \<Rightarrow> None
                 | Some (ex, cs3) \<Rightarrow>
                     Some (round_double
                             ((if cs \<noteq> [] \<and> hd cs = 45 then - 1 else 1) * of_nat (digits_value (takeWhile is_digit cs1 @ fp))
                              / 10 ^ length fp * pow10 ex),
                           cs3))))"
    unfolding parse_number_def Let_def cs1_def by (rule refl)
  from assms have ip: "takeWhile is_digit cs1 \<noteq> []"
    unfolding n by (cases "takeWhile is_digit cs1 = []") simp_all
  from assms obtain fp cs2 ex where f: "parse_fraction (dropWhile is_digit cs1) = Some (fp, cs2)"
    and x: "parse_exponent cs2 = Some (ex, rest)"
    unfolding n by (auto split: if_splits option.splits)
  have "length cs1 \<le> length cs" by (simp add: cs1_def)
  moreover from ip have "0 < length (takeWhile is_digit cs1)"
    by (cases "takeWhile is_digit cs1") simp_all
  then have "length (dropWhile is_digit cs1) < length cs1"
    using takeWhile_dropWhile_length [of is_digit cs1] by linarith
  moreover note parse_fraction_le [OF f] parse_exponent_le [OF x]
  ultimately show ?thesis by simp
qed

lemma parse_atom_shorter:
  assumes "parse_atom cs = Parsed v rest"
  shows "length rest < length cs"
proof (cases "cs \<noteq> [] \<and> hd cs = 34")
  case True
  with assms obtain s where "scan_string Plain [] (tl cs) = Some (s, rest)"
    unfolding parse_atom_def by (auto split: option.splits)
  then have "length rest < length (tl cs)" by (rule scan_string_shorter)
  then show ?thesis by simp
next
  case False
  have ne: "take k cs = js t \<Longrightarrow> t \<noteq> [] \<Longrightarrow> cs \<noteq> []" for k t
    by (auto simp: js_def)
  consider (t) "take 4 cs = js ''true''" | (f) "take 5 cs = js ''false''"
    | (n) "take 4 cs = js ''null''"
    | (num) "take 4 cs \<noteq> js ''true''" "take 5 cs \<noteq> js ''false''" "take 4 cs \<noteq> js ''null''"
    by blast
  then show ?thesis
  proof cases
    case t
    with ne [of 4 "''true''"] have "cs \<noteq> []" by simp
    moreover from assms False t have "rest = drop 4 cs"
      unfolding parse_atom_def by (simp split: if_splits)
    ultimately show ?thesis by simp
  next
    case f
    with ne [of 5 "''false''"] have "cs \<noteq> []" by simp
    moreover from assms False f have "rest = drop 5 cs \<or> rest = drop 4 cs"
      unfolding parse_atom_def by (simp split: if_splits)
    ultimately show ?thesis by auto
  next
    case n
    with ne [of 4 "''null''"] have "cs \<noteq> []" by simp
    moreover from assms False n have "rest = drop 5 cs \<or> rest = drop 4 cs"
      unfolding parse_atom_def by (simp split: if_splits)
    ultimately show ?thesis by auto
  next
    case num
    with assms False obtain q where "parse_number cs = Some (q, rest)"
      unfolding parse_atom_def by (auto split: option.splits if_splits)
    then show ?thesis by (rule parse_number_shorter)
  qed
qed

lemma parse_value_Suc_object:
  "skip_ws cs = 123 # r \<Longrightarrow>
     parse_value (Suc n) cs =
       (case skip_ws r of
          [] \<Rightarrow> Failed
        | c' # r' \<Rightarrow> if c' = 125 then Parsed (Obj []) r' else parse_members n [] (skip_ws r))"
  by simp

lemma parse_value_Suc_array:
  "skip_ws cs = 91 # r \<Longrightarrow>
     parse_value (Suc n) cs =
       (case skip_ws r of
          [] \<Rightarrow> Failed
        | c' # r' \<Rightarrow> if c' = 93 then Parsed (Arr []) r' else parse_elems n [] (skip_ws r))"
  by simp

lemma parse_value_Suc_atom:
  "skip_ws cs = c # r \<Longrightarrow> c \<noteq> 123 \<Longrightarrow> c \<noteq> 91 \<Longrightarrow> parse_value (Suc n) cs = parse_atom (c # r)"
  by simp

lemma parse_value_Suc_empty:
  "skip_ws cs = [] \<Longrightarrow> parse_value (Suc n) cs = Failed"
  by simp

lemma parse_value_Suc_shorter:
  assumes p: "parse_value (Suc n) cs = Parsed v rest"
    and e: "\<And>acc cs' v' rest'. parse_elems n acc cs' = Parsed v' rest' \<Longrightarrow> length rest' < length cs'"
    and m: "\<And>acc cs' v' rest'. parse_members n acc cs' = Parsed v' rest' \<Longrightarrow> length rest' < length cs'"
  shows "length rest < length cs"
proof (cases "skip_ws cs")
  case Nil
  with p show ?thesis by simp
next
  case (Cons c r)
  then have l: "length r < length cs" by (rule skip_ws_Cons)
  have sl: "length (c # r) \<le> length cs"
    using skip_ws_le [of cs] Cons by simp
  consider (obj) "c = 123" | (arr) "c = 91" | (atom) "c \<noteq> 123" "c \<noteq> 91" by blast
  then show ?thesis
  proof cases
    case obj
    with Cons have q: "parse_value (Suc n) cs =
       (case skip_ws r of
          [] \<Rightarrow> Failed
        | c' # r' \<Rightarrow> if c' = 125 then Parsed (Obj []) r' else parse_members n [] (skip_ws r))"
      by (simp only: parse_value_Suc_object)
    show ?thesis
    proof (cases "skip_ws r")
      case Nil
      with p q show ?thesis by simp
    next
      case (Cons c' r')
      then have lr: "length r' < length r" by (rule skip_ws_Cons)
      show ?thesis
      proof (cases "c' = 125")
        case True
        with p q Cons lr l show ?thesis by simp
      next
        case False
        with p q Cons have "parse_members n [] (skip_ws r) = Parsed v rest" by simp
        then have "length rest < length (skip_ws r)" by (rule m)
        with skip_ws_le [of r] l show ?thesis by simp
      qed
    qed
  next
    case arr
    with Cons have q: "parse_value (Suc n) cs =
       (case skip_ws r of
          [] \<Rightarrow> Failed
        | c' # r' \<Rightarrow> if c' = 93 then Parsed (Arr []) r' else parse_elems n [] (skip_ws r))"
      by (simp only: parse_value_Suc_array)
    show ?thesis
    proof (cases "skip_ws r")
      case Nil
      with p q show ?thesis by simp
    next
      case (Cons c' r')
      then have lr: "length r' < length r" by (rule skip_ws_Cons)
      show ?thesis
      proof (cases "c' = 93")
        case True
        with p q Cons lr l show ?thesis by simp
      next
        case False
        with p q Cons have "parse_elems n [] (skip_ws r) = Parsed v rest" by simp
        then have "length rest < length (skip_ws r)" by (rule e)
        with skip_ws_le [of r] l show ?thesis by simp
      qed
    qed
  next
    case atom
    have "parse_value (Suc n) cs = parse_atom (c # r)"
      by (rule parse_value_Suc_atom [OF Cons atom])
    with p have "parse_atom (c # r) = Parsed v rest" by simp
    then have "length rest < length (c # r)" by (rule parse_atom_shorter)
    with sl show ?thesis by simp
  qed
qed

lemma parse_elems_Suc_Parsed:
  assumes "parse_elems (Suc n) acc cs = Parsed v rest"
  shows "\<exists>v1 r1 c r2. parse_value n cs = Parsed v1 r1 \<and> skip_ws r1 = c # r2
           \<and> (if c = 44 then parse_elems n (acc @ [v1]) r2 = Parsed v rest
               else c = 93 \<and> rest = r2)"
proof (cases "parse_value n cs")
  case Failed
  with assms show ?thesis by simp
next
  case OutOfFuel
  with assms show ?thesis by simp
next
  case (Parsed v1 r1)
  with assms show ?thesis
    by (cases "skip_ws r1") (auto split: if_splits)
qed

lemma parse_members_Suc_Parsed:
  assumes "parse_members (Suc n) acc cs = Parsed v rest"
  shows "\<exists>r0 k r1 r2 v1 r3 c r4.
           skip_ws cs = 34 # r0 \<and> scan_string Plain [] r0 = Some (k, r1)
           \<and> skip_ws r1 = 58 # r2 \<and> parse_value n r2 = Parsed v1 r3 \<and> skip_ws r3 = c # r4
           \<and> (if c = 44 then parse_members n (obj_put acc k v1) r4 = Parsed v rest
               else c = 125 \<and> rest = r4)"
proof (cases "skip_ws cs")
  case Nil
  with assms show ?thesis by simp
next
  case (Cons c0 r0)
  note c0 = Cons
  show ?thesis
  proof (cases "c0 = 34")
    case False
    with assms c0 show ?thesis by simp
  next
    case True
    show ?thesis
    proof (cases "scan_string Plain [] r0")
      case None
      with assms c0 True show ?thesis by simp
    next
      case (Some kr)
      obtain k r1 where kr: "kr = (k, r1)" by (cases kr)
      show ?thesis
      proof (cases "skip_ws r1")
        case Nil
        with assms c0 True Some kr show ?thesis by simp
      next
        case (Cons c1 r2)
        note c1 = Cons
        show ?thesis
        proof (cases "c1 = 58")
          case False
          with assms c0 True Some kr c1 show ?thesis by simp
        next
          case c58: True
          show ?thesis
          proof (cases "parse_value n r2")
            case Failed
            with assms c0 True Some kr c1 c58 show ?thesis by simp
          next
            case OutOfFuel
            with assms c0 True Some kr c1 c58 show ?thesis by simp
          next
            case (Parsed v1 r3)
            with assms c0 True Some kr c1 c58 show ?thesis
              by (cases "skip_ws r3") (auto split: if_splits)
          qed
        qed
      qed
    qed
  qed
qed

lemma parse_shorter:
  "(\<forall>cs v rest. parse_value n cs = Parsed v rest \<longrightarrow> length rest < length cs)
   \<and> (\<forall>acc cs v rest. parse_elems n acc cs = Parsed v rest \<longrightarrow> length rest < length cs)
   \<and> (\<forall>acc cs v rest. parse_members n acc cs = Parsed v rest \<longrightarrow> length rest < length cs)"
proof (induction n)
  case 0
  show ?case by simp
next
  case (Suc n)
  then have v: "\<And>cs v rest. parse_value n cs = Parsed v rest \<Longrightarrow> length rest < length cs"
    and e: "\<And>acc cs v rest. parse_elems n acc cs = Parsed v rest \<Longrightarrow> length rest < length cs"
    and m: "\<And>acc cs v rest. parse_members n acc cs = Parsed v rest \<Longrightarrow> length rest < length cs"
    by blast+
  have "length rest < length cs" if "parse_value (Suc n) cs = Parsed v rest" for cs v rest
    using that e m by (rule parse_value_Suc_shorter)
  moreover have "length rest < length cs" if "parse_elems (Suc n) acc cs = Parsed v rest"
    for acc cs v rest
  proof -
    from parse_elems_Suc_Parsed [OF that] obtain v1 r1 c r2 where
      1: "parse_value n cs = Parsed v1 r1" and 2: "skip_ws r1 = c # r2"
      and 3: "if c = 44 then parse_elems n (acc @ [v1]) r2 = Parsed v rest else c = 93 \<and> rest = r2"
      by blast
    from v [OF 1] skip_ws_Cons [OF 2] have "length r2 < length cs" by simp
    moreover have "length rest \<le> length r2"
    proof (cases "c = 44")
      case True
      with 3 have "parse_elems n (acc @ [v1]) r2 = Parsed v rest" by simp
      from e [OF this] show ?thesis by simp
    next
      case False
      with 3 show ?thesis by simp
    qed
    ultimately show ?thesis by simp
  qed
  moreover have "length rest < length cs" if "parse_members (Suc n) acc cs = Parsed v rest"
    for acc cs v rest
  proof -
    from parse_members_Suc_Parsed [OF that] obtain r0 k r1 r2 v1 r3 c r4 where
      0: "skip_ws cs = 34 # r0" and 1: "scan_string Plain [] r0 = Some (k, r1)"
      and 2: "skip_ws r1 = 58 # r2" and 3: "parse_value n r2 = Parsed v1 r3"
      and 4: "skip_ws r3 = c # r4"
      and 5: "if c = 44 then parse_members n (obj_put acc k v1) r4 = Parsed v rest else c = 125 \<and> rest = r4"
      by blast
    from skip_ws_Cons [OF 0] scan_string_shorter [OF 1] skip_ws_Cons [OF 2] v [OF 3]
      skip_ws_Cons [OF 4]
    have "length r4 < length cs" by simp
    moreover have "length rest \<le> length r4"
    proof (cases "c = 44")
      case True
      with 5 have "parse_members n (obj_put acc k v1) r4 = Parsed v rest" by simp
      from m [OF this] show ?thesis by simp
    next
      case False
      with 5 show ?thesis by simp
    qed
    ultimately show ?thesis by simp
  qed
  ultimately show ?case by blast
qed

lemma parse_atom_fuel: "parse_atom cs \<noteq> OutOfFuel"
  unfolding parse_atom_def by (simp split: option.splits)

lemma parse_elems_Suc_OutOfFuel:
  assumes "parse_elems (Suc n) acc cs = OutOfFuel"
  shows "parse_value n cs = OutOfFuel
         \<or> (\<exists>v1 r1 r2. parse_value n cs = Parsed v1 r1 \<and> skip_ws r1 = 44 # r2
               \<and> parse_elems n (acc @ [v1]) r2 = OutOfFuel)"
proof (cases "parse_value n cs")
  case Failed
  with assms show ?thesis by simp
next
  case OutOfFuel
  then show ?thesis by simp
next
  case (Parsed v1 r1)
  with assms show ?thesis
    by (cases "skip_ws r1") (auto split: if_splits)
qed

lemma parse_members_Suc_OutOfFuel:
  assumes "parse_members (Suc n) acc cs = OutOfFuel"
  shows "\<exists>r0 k r1 r2. skip_ws cs = 34 # r0 \<and> scan_string Plain [] r0 = Some (k, r1)
           \<and> skip_ws r1 = 58 # r2
           \<and> (parse_value n r2 = OutOfFuel
               \<or> (\<exists>v1 r3 r4. parse_value n r2 = Parsed v1 r3 \<and> skip_ws r3 = 44 # r4
                     \<and> parse_members n (obj_put acc k v1) r4 = OutOfFuel))"
proof (cases "skip_ws cs")
  case Nil
  with assms show ?thesis by simp
next
  case (Cons c0 r0)
  note c0 = Cons
  show ?thesis
  proof (cases "c0 = 34")
    case False
    with assms c0 show ?thesis by simp
  next
    case True
    show ?thesis
    proof (cases "scan_string Plain [] r0")
      case None
      with assms c0 True show ?thesis by simp
    next
      case (Some kr)
      obtain k r1 where kr: "kr = (k, r1)" by (cases kr)
      show ?thesis
      proof (cases "skip_ws r1")
        case Nil
        with assms c0 True Some kr show ?thesis by simp
      next
        case (Cons c1 r2)
        note c1 = Cons
        show ?thesis
        proof (cases "c1 = 58")
          case False
          with assms c0 True Some kr c1 show ?thesis by simp
        next
          case c58: True
          show ?thesis
          proof (cases "parse_value n r2")
            case Failed
            with assms c0 True Some kr c1 c58 show ?thesis by simp
          next
            case OutOfFuel
            with c0 True Some kr c1 c58 show ?thesis by simp
          next
            case (Parsed v1 r3)
            with assms c0 True Some kr c1 c58 show ?thesis
              by (cases "skip_ws r3") (auto split: if_splits)
          qed
        qed
      qed
    qed
  qed
qed

lemma parse_value_Suc_OutOfFuel:
  assumes "parse_value (Suc n) cs = OutOfFuel"
  shows "\<exists>c r. skip_ws cs = c # r
           \<and> (parse_members n [] (skip_ws r) = OutOfFuel \<or> parse_elems n [] (skip_ws r) = OutOfFuel)"
proof (cases "skip_ws cs")
  case Nil
  with assms show ?thesis by simp
next
  case (Cons c r)
  consider (obj) "c = 123" | (arr) "c = 91" | (atom) "c \<noteq> 123" "c \<noteq> 91" by blast
  then show ?thesis
  proof cases
    case obj
    with assms Cons show ?thesis
      by (cases "skip_ws r") (auto split: if_splits)
  next
    case arr
    with assms Cons show ?thesis
      by (cases "skip_ws r") (auto split: if_splits)
  next
    case atom
    from assms parse_value_Suc_atom [OF Cons atom] parse_atom_fuel [of "c # r"]
    show ?thesis by simp
  qed
qed

lemma parse_fuel:
  "(\<forall>cs. 2 * length cs + 1 \<le> n \<longrightarrow> parse_value n cs \<noteq> OutOfFuel)
   \<and> (\<forall>acc cs. 2 * length cs + 2 \<le> n \<longrightarrow> parse_elems n acc cs \<noteq> OutOfFuel)
   \<and> (\<forall>acc cs. 2 * length cs + 2 \<le> n \<longrightarrow> parse_members n acc cs \<noteq> OutOfFuel)"
proof (induction n)
  case 0
  show ?case by simp
next
  case (Suc n)
  then have v: "\<And>cs. 2 * length cs + 1 \<le> n \<Longrightarrow> parse_value n cs \<noteq> OutOfFuel"
    and e: "\<And>acc cs. 2 * length cs + 2 \<le> n \<Longrightarrow> parse_elems n acc cs \<noteq> OutOfFuel"
    and m: "\<And>acc cs. 2 * length cs + 2 \<le> n \<Longrightarrow> parse_members n acc cs \<noteq> OutOfFuel"
    by blast+
  from parse_shorter [of n]
  have s: "\<And>cs v rest. parse_value n cs = Parsed v rest \<Longrightarrow> length rest < length cs"
    by blast
  have "parse_value (Suc n) cs \<noteq> OutOfFuel" if b: "2 * length cs + 1 \<le> Suc n" for cs
  proof
    assume "parse_value (Suc n) cs = OutOfFuel"
    from parse_value_Suc_OutOfFuel [OF this] obtain c r where
      1: "skip_ws cs = c # r"
      and 2: "parse_members n [] (skip_ws r) = OutOfFuel \<or> parse_elems n [] (skip_ws r) = OutOfFuel"
      by blast
    from skip_ws_Cons [OF 1] skip_ws_le [of r] b have "2 * length (skip_ws r) + 2 \<le> n"
      by simp
    with e m 2 show False by blast
  qed
  moreover have "parse_elems (Suc n) acc cs \<noteq> OutOfFuel" if b: "2 * length cs + 2 \<le> Suc n"
    for acc cs
  proof
    assume "parse_elems (Suc n) acc cs = OutOfFuel"
    from parse_elems_Suc_OutOfFuel [OF this] b v [of cs] obtain v1 r1 r2 where
      1: "parse_value n cs = Parsed v1 r1" and 2: "skip_ws r1 = 44 # r2"
      and 3: "parse_elems n (acc @ [v1]) r2 = OutOfFuel"
      by auto
    from s [OF 1] skip_ws_Cons [OF 2] b have "2 * length r2 + 2 \<le> n" by simp
    with e 3 show False by blast
  qed
  moreover have "parse_members (Suc n) acc cs \<noteq> OutOfFuel" if b: "2 * length cs + 2 \<le> Suc n"
    for acc cs
  proof
    assume "parse_members (Suc n) acc cs = OutOfFuel"
    from parse_members_Suc_OutOfFuel [OF this] obtain r0 k r1 r2 where
      0: "skip_ws cs = 34 # r0" and 1: "scan_string Plain [] r0 = Some (k, r1)"
      and 2: "skip_ws r1 = 58 # r2"
      and 3: "parse_value n r2 = OutOfFuel
               \<or> (\<exists>v1 r3 r4. parse_value n r2 = Parsed v1 r3 \<and> skip_ws r3 = 44 # r4
                     \<and> parse_members n (obj_put acc k v1) r4 = OutOfFuel)"
      by blast
    from skip_ws_Cons [OF 0] scan_string_shorter [OF 1] skip_ws_Cons [OF 2] b
    have l: "2 * length r2 + 6 \<le> n" by simp
    then have "parse_value n r2 \<noteq> OutOfFuel" by (intro v) simp
    with 3 obtain v1 r3 r4 where 4: "parse_value n r2 = Parsed v1 r3"
      and 5: "skip_ws r3 = 44 # r4"
      and 6: "parse_members n (obj_put acc k v1) r4 = OutOfFuel"
      by blast
    from s [OF 4] skip_ws_Cons [OF 5] l have "2 * length r4 + 2 \<le> n" by simp
    with m 6 show False by blast
  qed
  ultimately show ?case by blast
qed

lemma parse_value_fuel: "parse_value (2 * length s + 2) s \<noteq> OutOfFuel"
  using parse_fuel [of "2 * length s + 2"] by simp

section \<open>Numbers and evaluation\<close>

lemma round_half_even_of_int: "round_half_even (of_int z) = z"
  by (simp add: round_half_even_def)

lemma round_double_of_nat:
  assumes "n < 2 ^ 53"
  shows "round_double (of_nat n) = Number (of_nat n)"
proof (cases "n = 0")
  case True
  then show ?thesis by (simp add: round_double_def)
next
  case False
  define a :: rat where "a = of_nat n"
  have a_pos: "0 < a" using False by (simp add: a_def)
  have "a = of_int (int n)" by (simp add: a_def)
  then have q: "quotient_of a = (int n, 1)" by (simp add: quotient_of_int)
  have "bitlen (int n) \<le> 53"
    using assms by (simp add: bitlen_le_iff_power)
  moreover have "bitlen 1 = 1"
    using bitlen_twopow_add_eq [of 0 0] by simp
  ultimately have "binary_exponent a \<le> 52"
    by (simp add: binary_exponent_def q Let_def)
  define p where "p = max (binary_exponent a - 52) (- 1074)"
  have p: "p \<le> 0" using \<open>binary_exponent a \<le> 52\<close> by (simp add: p_def)
  then have pw: "pow2 p = 1 / 2 ^ nat (- p)"
    by (cases "p = 0") (simp_all add: pow2_def)
  have "a / pow2 p = of_int (int n * 2 ^ nat (- p))"
    by (simp add: pw a_def)
  then have "round_half_even (a / pow2 p) = int n * 2 ^ nat (- p)"
    by (simp only: round_half_even_of_int)
  then have v: "of_int (round_half_even (a / pow2 p)) * pow2 p = a"
    by (simp add: pw a_def)
  have "a < 2 ^ 53" using assms unfolding a_def
    by (metis of_nat_less_numeral_power_cancel_iff)
  also have "\<dots> < (2::rat) ^ 1024" by simp
  finally have "\<not> 2 ^ 1024 \<le> a" by simp
  with a_pos v show ?thesis
    unfolding round_double_def Let_def p_def [symmetric] a_def [symmetric]
    by (simp add: abs_of_pos p_def [symmetric])
qed

lemma round_double_numeral: "numeral k < (2::nat) ^ 53 \<Longrightarrow> round_double (numeral k) = Number (numeral k)"
  using round_double_of_nat [of "numeral k"] by simp

lemma round_double_1: "round_double 1 = Number 1"
  using round_double_of_nat [of 1] by simp

section \<open>Evaluation of the parser, and the program on its requests\<close>

lemma parse_value_fuel_numeral:
  "parse_value (numeral k) cs =
     (case skip_ws cs of
        [] \<Rightarrow> Failed
      | c # rest \<Rightarrow>
          if c = 123 then
            (case skip_ws rest of
               [] \<Rightarrow> Failed
             | c' # rest' \<Rightarrow>
                 if c' = 125 then Parsed (Obj []) rest'
                 else parse_members (pred_numeral k) [] (skip_ws rest))
          else if c = 91 then
            (case skip_ws rest of
               [] \<Rightarrow> Failed
             | c' # rest' \<Rightarrow>
                 if c' = 93 then Parsed (Arr []) rest'
                 else parse_elems (pred_numeral k) [] (skip_ws rest))
          else parse_atom (c # rest))"
  unfolding numeral_eq_Suc [of k] by (rule parse_value.simps(2))

lemma parse_elems_fuel_numeral:
  "parse_elems (numeral k) acc cs =
     (case parse_value (pred_numeral k) cs of
        Failed \<Rightarrow> Failed
      | OutOfFuel \<Rightarrow> OutOfFuel
      | Parsed v rest \<Rightarrow>
          (case skip_ws rest of
             [] \<Rightarrow> Failed
           | c # rest' \<Rightarrow>
               if c = 44 then parse_elems (pred_numeral k) (acc @ [v]) rest'
               else if c = 93 then Parsed (Arr (acc @ [v])) rest'
               else Failed))"
  unfolding numeral_eq_Suc [of k] by (rule parse_elems.simps(2))

lemma parse_members_fuel_numeral:
  "parse_members (numeral k) acc cs =
     (case skip_ws cs of
        [] \<Rightarrow> Failed
      | c # rest \<Rightarrow>
          if c \<noteq> 34 then Failed
          else
            (case scan_string Plain [] rest of
               None \<Rightarrow> Failed
             | Some (k', rest1) \<Rightarrow>
                 (case skip_ws rest1 of
                    [] \<Rightarrow> Failed
                  | c1 # rest2 \<Rightarrow>
                      if c1 \<noteq> 58 then Failed
                      else
                        (case parse_value (pred_numeral k) rest2 of
                           Failed \<Rightarrow> Failed
                         | OutOfFuel \<Rightarrow> OutOfFuel
                         | Parsed v rest3 \<Rightarrow>
                             (case skip_ws rest3 of
                                [] \<Rightarrow> Failed
                              | c3 # rest4 \<Rightarrow>
                                  if c3 = 44 then parse_members (pred_numeral k) (obj_put acc k' v) rest4
                                  else if c3 = 125 then Parsed (Obj (obj_put acc k' v)) rest4
                                  else Failed)))))"
  unfolding numeral_eq_Suc [of k] by (rule parse_members.simps(2))

lemmas parse_eval =
  JSON_parse_def js_def parse_value_fuel_numeral parse_elems_fuel_numeral
  parse_members_fuel_numeral skip_ws_def is_json_space_def parse_atom_def
  parse_number_def parse_fraction_def parse_exponent_def is_digit_def digits_value_def
  round_double_numeral round_double_1 pow10_def escape_char_def hex_digit_def Let_def

lemma searchPlaces_fst:
  "fst (searchPlaces e w issued params) =
     bindE (w (length issued) (places_request e params)) (\<lambda>data. get_prop data (js ''results''))"
  by (simp add: searchPlaces_def http_def split: sum.splits)

lemma searchPlaces_snd:
  "snd (searchPlaces e w issued params) = issued @ [places_request e params]"
  by (simp add: searchPlaces_def http_def)

lemma map_calls_Cons:
  "map_calls f (x # xs) s =
     (fst (f x s) # fst (map_calls f xs (snd (f x s))), snd (map_calls f xs (snd (f x s))))"
  by (simp add: case_prod_beta)

lemma search_all_eq:
  assumes "get_prop prefs (js ''location'') = Inr near"
  shows "search_all e w prefs cats issued =
           (map (\<lambda>j. bindE (w (length issued + j) (places_request e (search_params (cats ! j) near)))
                        (\<lambda>data. get_prop data (js ''results'')))
              [0 ..< length cats],
            issued @ map (\<lambda>c. places_request e (search_params c near)) cats)"
proof (induction cats arbitrary: issued)
  case Nil
  show ?case by (simp add: search_all_def)
next
  case (Cons c cs)
  have step: "search_all e w prefs (c # cs) issued =
        (fst (searchPlaces e w issued (search_params c near))
           # fst (search_all e w prefs cs (issued @ [places_request e (search_params c near)])),
         snd (search_all e w prefs cs (issued @ [places_request e (search_params c near)])))"
    unfolding search_all_def map_calls_Cons
    by (simp add: assms searchPlaces_snd)
  have m: "map f [0 ..< length (c # cs)] = f 0 # map (\<lambda>j. f (Suc j)) [0 ..< length cs]" for f :: "nat \<Rightarrow> js_error + jsval"
    by (simp add: upt_conv_Cons map_Suc_upt [symmetric] del: upt_Suc)
  show ?case
    unfolding step Cons.IH m by (simp add: searchPlaces_fst)
qed

lemma get_prop_Arr_object:
  "get_prop prefs k = Inr (Arr cats) \<Longrightarrow> get_prop prefs k' = Inr (field prefs k')"
  by (cases prefs) (auto split: if_splits)

lemma processUserInput_issued:
  "snd (processUserInput rt e w issued u) = issued @ [gemini_request e u]"
  by (simp add: processUserInput_def processUserInput_try_def http_def split: sum.splits)

lemma processUserInput_Inr:
  "\<exists>v. fst (processUserInput rt e w issued u) = Inr v"
  by (simp add: processUserInput_def processUserInput_try_def http_def split: sum.splits)

lemma response_text_gemini_answer [simp]:
  "response_text rt (gemini_answer t) = Inr (Str t)"
  by (simp add: response_text_def gemini_answer_def decimal.simps number_key_def)

lemma get_results_places_answer [simp]:
  "get_prop (places_answer xs) (js ''results'') = Inr (Arr xs)"
  by (simp add: places_answer_def)

lemma length_map_calls: "length (fst (map_calls f xs s)) = length xs"
  by (induction xs arbitrary: s) (simp_all add: case_prod_beta)

lemma length_search_all: "length (fst (search_all e w prefs cats issued)) = length cats"
  unfolding search_all_def by (rule length_map_calls)

lemma picked_concat:
  "filter truthy (map (\<lambda>xs. if xs = [] then Undefined else xs ! (i mod length xs)) xss)
     = concat (map (\<lambda>xs. if xs = [] then [] else filter truthy [xs ! (i mod length xs)]) xss)"
  by (induction xss) simp_all

lemma picked_without:
  assumes "j < length xss" and "xss ! j = []"
  shows "filter truthy (map (\<lambda>xs. if xs = [] then Undefined else xs ! (i mod length xs)) xss)
     = filter truthy (map (\<lambda>xs. if xs = [] then Undefined else xs ! (i mod length xs))
                        (take j xss @ drop (Suc j) xss))"
proof -
  let ?sel = "\<lambda>xs. if xs = [] then Undefined else xs ! (i mod length xs)"
  have "filter truthy (map ?sel (take j xss @ xss ! j # drop (Suc j) xss))
          = filter truthy (map ?sel (take j xss @ drop (Suc j) xss))"
    by (simp add: assms(2))
  then show ?thesis
    by (simp only: id_take_nth_drop [OF assms(1), symmetric])
qed

lemma map_indices: "map (\<lambda>j. f (xs ! j)) [0 ..< length xs] = map f xs"
  by (rule nth_equalityI) simp_all

lemma picked_indices:
  "filter truthy (map (\<lambda>xs. if xs = [] then Undefined else xs ! (i mod length xs)) xss)
     = map (\<lambda>j. xss ! j ! (i mod length (xss ! j)))
         (filter (\<lambda>j. xss ! j \<noteq> [] \<and> truthy (xss ! j ! (i mod length (xss ! j))))
            [0 ..< length xss])"
proof -
  let ?sel = "\<lambda>xs. if xs = [] then Undefined else xs ! (i mod length xs)"
  let ?keep = "\<lambda>j. xss ! j \<noteq> [] \<and> truthy (xss ! j ! (i mod length (xss ! j)))"
  have "filter truthy (map ?sel xss)
          = filter truthy (map (\<lambda>j. ?sel (xss ! j)) [0 ..< length xss])"
    using map_indices [of ?sel xss] by simp
  also have "\<dots> = map (\<lambda>j. ?sel (xss ! j)) (filter (\<lambda>j. truthy (?sel (xss ! j))) [0 ..< length xss])"
    by (simp only: filter_map comp_def)
  also have "filter (\<lambda>j. truthy (?sel (xss ! j))) [0 ..< length xss] = filter ?keep [0 ..< length xss]"
    by (rule filter_cong) auto
  also have "map (\<lambda>j. ?sel (xss ! j)) (filter ?keep [0 ..< length xss])
          = map (\<lambda>j. xss ! j ! (i mod length (xss ! j))) (filter ?keep [0 ..< length xss])"
    by (rule map_cong) auto
  finally show ?thesis .
qed

lemma nth_days: "i < D \<Longrightarrow> map f [0 ..< D] ! i = f i"
  by simp

lemma search_all_answers:
  assumes "get_prop prefs (js ''location'') = Inr near"
    and "length xss = length cats"
    and "\<forall>j<length cats. \<exists>data.
           w (length issued + j) (places_request e (search_params (cats ! j) near)) = Inr data
           \<and> get_prop data (js ''results'') = Inr (Arr (xss ! j))"
  shows "fst (search_all e w prefs cats issued) = map (\<lambda>xs. Inr (Arr xs)) xss"
proof (rule nth_equalityI)
  show "length (fst (search_all e w prefs cats issued)) = length (map (\<lambda>xs. Inr (Arr xs)) xss)"
    by (simp add: length_search_all assms(2))
next
  fix j
  assume "j < length (fst (search_all e w prefs cats issued))"
  then have j: "j < length cats" by (simp add: length_search_all)
  with assms(3) obtain data where
    "w (length issued + j) (places_request e (search_params (cats ! j) near)) = Inr data"
    "get_prop data (js ''results'') = Inr (Arr (xss ! j))"
    by blast
  with j assms(2) show "fst (search_all e w prefs cats issued) ! j = map (\<lambda>xs. Inr (Arr xs)) xss ! j"
    by (simp add: search_all_eq [OF assms(1)])
qed

lemma array_from_Inr:
  assumes "array_from rt v f = Inr y"
  shows "\<exists>xs n. y = Arr xs \<and> list_all2 (\<lambda>i x. f i = Inr x) [0 ..< n] xs"
proof -
  from assms obtain n where "bindE (mapE f [0 ..< to_length n]) (\<lambda>xs. Inr (Arr xs)) = Inr y"
    unfolding array_from_def by (auto simp: bindE_Inr_iff split: if_splits)
  then obtain xs where "mapE f [0 ..< to_length n] = Inr xs" "y = Arr xs"
    by (auto simp: bindE_Inr_iff)
  with mapE_Inr_list_all2 [of f "[0 ..< to_length n]" xs] show ?thesis by blast
qed

lemma itinerary_day_Inr:
  assumes "itinerary_day rt placesResults i = Inr d"
  shows "\<exists>picked. d = Obj [(js ''day'', Num (Number (of_nat i + 1))),
                            (js ''places'', Arr (filter truthy picked))]"
  using assms unfolding itinerary_day_def by (auto simp: bindE_Inr_iff)

lemma generateTrip_Inr:
  assumes "fst (generateTrip rt e w u) = Inr plan"
  shows "\<exists>prefs placesResults duration itinerary.
           plan = Obj [(js ''preferences'', prefs), (js ''itinerary'', itinerary)]
           \<and> array_from rt duration (itinerary_day rt placesResults) = Inr itinerary"
proof -
  obtain r issued where t: "generateTrip_try rt e w [] u = (r, issued)"
    by (cases "generateTrip_try rt e w [] u")
  with assms have r: "r = Inr plan"
    by (cases r) (simp_all add: generateTrip_def)
  obtain p issued1 where p: "processUserInput rt e w [] u = (p, issued1)"
    by (cases "processUserInput rt e w [] u")
  show ?thesis
  proof (cases p)
    case (Inl err)
    with t r p show ?thesis by (simp add: generateTrip_try_def)
  next
    case (Inr prefs)
    show ?thesis
    proof (cases "get_prop prefs (js ''categories'')")
      case (Inl err)
      with t r p \<open>p = Inr prefs\<close> show ?thesis by (simp add: generateTrip_try_def)
    next
      case c: (Inr categories)
      show ?thesis
      proof (cases categories)
        case (Arr cats)
        obtain outcomes issued2 where s: "search_all e w prefs cats issued1 = (outcomes, issued2)"
          by (cases "search_all e w prefs cats issued1")
        from t r p \<open>p = Inr prefs\<close> c Arr s show ?thesis
          by (auto simp: generateTrip_try_def bindE_Inr_iff)
      qed (use t r p \<open>p = Inr prefs\<close> c in \<open>simp_all add: generateTrip_try_def\<close>)
    qed
  qed
qed

lemma promise_all_Inl:
  assumes "j < length outcomes" and "outcomes ! j = Inl err"
  shows "\<exists>err' j'. promise_all outcomes = Inl err' \<and> j' < length outcomes \<and> outcomes ! j' = Inl err'"
  using assms
proof (induction outcomes arbitrary: j)
  case Nil
  then show ?case by simp
next
  case (Cons a outcomes)
  show ?case
  proof (cases a)
    case (Inl e0)
    then have "promise_all (a # outcomes) = Inl e0 \<and> 0 < length (a # outcomes) \<and> (a # outcomes) ! 0 = Inl e0"
      by (simp add: promise_all_def)
    then show ?thesis by blast
  next
    case (Inr v)
    with Cons.prems obtain k where k: "j = Suc k" "k < length outcomes" "outcomes ! k = Inl err"
      by (cases j) auto
    from Cons.IH [OF k(2,3)] obtain err' j' where
      "promise_all outcomes = Inl err'" "j' < length outcomes" "outcomes ! j' = Inl err'"
      by blast
    with Inr have "promise_all (a # outcomes) = Inl err' \<and> Suc j' < length (a # outcomes)
                     \<and> (a # outcomes) ! Suc j' = Inl err'"
      by (simp add: promise_all_def)
    then show ?thesis by blast
  qed
qed

lemma generateTrip_try_searches:
  assumes "processUserInput rt e w [] u = (Inr prefs, issued1)"
    and "get_prop prefs (js ''categories'') = Inr (Arr cats)"
  shows "generateTrip rt e w u =
           (bindE (promise_all (fst (search_all e w prefs cats issued1))) (\<lambda>placesResults.
            bindE (get_prop prefs (js ''duration'')) (\<lambda>duration.
            bindE (array_from rt duration (itinerary_day rt placesResults)) (\<lambda>itinerary.
              Inr (Obj [(js ''preferences'', prefs), (js ''itinerary'', itinerary)])))),
            snd (search_all e w prefs cats issued1))"
  by (simp add: generateTrip_def generateTrip_try_def assms case_prod_beta split: sum.splits)

lemma processUserInput_answer:
  "processUserInput rt e w issued u =
     (case bindE (w (length issued) (gemini_request e u)) (\<lambda>data.
           bindE (response_text rt data) (\<lambda>text.
           bindE (as_text text) (\<lambda>generatedText.
             JSON_parse (extract_json (clean_text generatedText))))) of
        Inl error \<Rightarrow> Inr fallback
      | Inr v \<Rightarrow> Inr v,
      issued @ [gemini_request e u])"
  by (simp add: processUserInput_def processUserInput_try_def http_def split: sum.splits)

lemma processUserInput_text:
  assumes "w (length issued) (gemini_request e u) = Inr data"
    and "response_text rt data = Inr (Str t)"
  shows "fst (processUserInput rt e w issued u) =
           (case JSON_parse (extract_json (clean_text t)) of
              Inl error \<Rightarrow> Inr fallback
            | Inr v \<Rightarrow> Inr v)"
  by (simp add: processUserInput_answer assms as_text_def)



lemma example_clean: "extract_json (clean_text example_text) = example_text"
  by (simp add: example_text_def clean_text_def fence_def js_def trim_def is_space_def
      extract_json_def slice_def lastIndexOf_def Let_def)

lemma example_parse: "JSON_parse example_text = Inr example_preferences"
  unfolding example_text_def example_preferences_def by (simp add: parse_eval)

lemma example_processUserInput:
  "processUserInput rt e example_world [] u = (Inr example_preferences, [gemini_request e u])"
  by (simp add: processUserInput_answer example_world_def as_text_def example_clean example_parse)

lemma example_search_all:
  "fst (search_all e example_world example_preferences
          [Str (js ''a''), Str (js ''b''), Str (js ''c'')] [gemini_request e u])
     = map (\<lambda>xs. Inr (Arr xs))
         [[Str (js ''a0''), Str (js ''a1''), Str (js ''a2'')],
          [Str (js ''b0''), Null, Str (js ''b2''), Str (js ''b3''), Str (js ''b4'')],
          []]"
proof -
  have "get_prop example_preferences (js ''location'') = Inr (Str (js ''X''))"
    by (simp add: example_preferences_def)
  then show ?thesis
    by (simp add: search_all_eq example_world_def upt_conv_Cons)
qed

lemma long_trip_clean: "extract_json (clean_text long_trip_text) = long_trip_text"
  by (simp add: long_trip_text_def clean_text_def fence_def js_def trim_def is_space_def
      extract_json_def slice_def lastIndexOf_def Let_def)

lemma long_trip_parse: "JSON_parse long_trip_text = Inr long_trip_preferences"
  unfolding long_trip_text_def long_trip_preferences_def by (simp add: parse_eval)

lemma long_trip_processUserInput:
  "processUserInput rt e long_trip_world [] u = (Inr long_trip_preferences, [gemini_request e u])"
  by (simp add: processUserInput_answer long_trip_world_def as_text_def long_trip_clean
      long_trip_parse)

lemma JSON_parse_extract_object:
  assumes "JSON_parse (extract_json s) = Inr v"
  shows "is_object v"
proof -
  from extract_json_cases [of s] assms obtain r where "extract_json s = 123 # r"
    by (auto simp: JSON_parse_empty JSON_parse_close)
  with assms show ?thesis by (auto dest: JSON_parse_open)
qed

lemma example_categories:
  "get_prop example_preferences (js ''categories'')
     = Inr (Arr [Str (js ''a''), Str (js ''b''), Str (js ''c'')])"
  by (simp add: example_preferences_def)

lemma example_duration:
  "get_prop example_preferences (js ''duration'') = Inr (Num (Number (of_nat 6)))"
  by (simp add: example_preferences_def)

lemma example_location: "field example_preferences (js ''location'') = Str (js ''X'')"
  by (simp add: example_preferences_def)

lemma six_days: "(6::nat) < 2 ^ 32"
  by simp

lemma example_answers:
  "\<forall>j<length [Str (js ''a''), Str (js ''b''), Str (js ''c'')]. \<exists>data.
      example_world (length [gemini_request e u] + j)
        (places_request e
           (search_params ([Str (js ''a''), Str (js ''b''), Str (js ''c'')] ! j)
              (field example_preferences (js ''location'')))) = Inr data
      \<and> get_prop data (js ''results'')
          = Inr (Arr ([[Str (js ''a0''), Str (js ''a1''), Str (js ''a2'')],
                       [Str (js ''b0''), Null, Str (js ''b2''), Str (js ''b3''), Str (js ''b4'')],
                       []] ! j))"
proof (intro allI impI)
  fix j :: nat
  assume "j < length [Str (js ''a''), Str (js ''b''), Str (js ''c'')]"
  then consider "j = 0" | "j = 1" | "j = 2" by fastforce
  then show "\<exists>data.
      example_world (length [gemini_request e u] + j)
        (places_request e
           (search_params ([Str (js ''a''), Str (js ''b''), Str (js ''c'')] ! j)
              (field example_preferences (js ''location'')))) = Inr data
      \<and> get_prop data (js ''results'')
          = Inr (Arr ([[Str (js ''a0''), Str (js ''a1''), Str (js ''a2'')],
                       [Str (js ''b0''), Null, Str (js ''b2''), Str (js ''b3''), Str (js ''b4'')],
                       []] ! j))"
    by cases (simp_all add: example_world_def)
qed

lemma failing_processUserInput:
  "processUserInput rt e failing_world [] u = (Inr example_preferences, [gemini_request e u])"
  by (simp add: processUserInput_answer failing_world_def example_world_def as_text_def
      example_clean example_parse)


lemma mapE_append:
  "mapE f (xs @ ys) = bindE (mapE f xs) (\<lambda>a. bindE (mapE f ys) (\<lambda>b. Inr (a @ b)))"
proof (induction xs)
  case Nil
  show ?case by (cases "mapE f ys") simp_all
next
  case (Cons x xs)
  show ?case
  proof (cases "f x")
    case (Inl e)
    then show ?thesis by simp
  next
    case (Inr y)
    show ?thesis
    proof (cases "mapE f xs")
      case (Inl e)
      with Inr Cons show ?thesis by simp
    next
      case r: (Inr zs)
      with Inr Cons show ?thesis by (cases "mapE f ys") simp_all
    qed
  qed
qed

lemma itinerary_day_without_empty:
  assumes "j < length rs" and "rs ! j = Arr []"
  shows "itinerary_day rt rs i = itinerary_day rt (take j rs @ drop (Suc j) rs) i"
proof -
  have p: "pick rt i (Arr []) = Inr Undefined" by (simp add: pick_Arr)
  from assms have rs: "rs = take j rs @ Arr [] # drop (Suc j) rs"
    by (metis id_take_nth_drop)
  have "mapE (pick rt i) (Arr [] # drop (Suc j) rs)
          = bindE (mapE (pick rt i) (drop (Suc j) rs)) (\<lambda>b. Inr (Undefined # b))"
    by (simp add: p)
  then have "itinerary_day rt (take j rs @ Arr [] # drop (Suc j) rs) i
          = itinerary_day rt (take j rs @ drop (Suc j) rs) i"
    unfolding itinerary_day_def mapE_append
    by (cases "mapE (pick rt i) (take j rs)"; cases "mapE (pick rt i) (drop (Suc j) rs)") simp_all
  with rs show ?thesis by simp
qed

section \<open>The cleaned text\<close>
















section \<open>The claims\<close>

text \<open>
  C1. \<^verbatim>\<open>processUserInput\<close> never throws: for every runtime, environment, world and input
  string it returns a value, having issued its one request. When the HTTP call is
  rejected, when reading the text out of the response or calling \<^verbatim>\<open>replace\<close> on it
  throws, or when \<^verbatim>\<open>JSON.parse\<close> throws, the value is exactly the record with the
  categories food, culture and nature, the location Montreal, the duration 3, the pace
  high and the budget high; in particular when the text has no opening brace or no
  closing brace.
\<close>

theorem processUserInput_never_throws:
  "(\<exists>v. processUserInput rt e w issued u = (Inr v, issued @ [gemini_request e u]))
   \<and> ((\<exists>error. w (length issued) (gemini_request e u) = Inl error) \<longrightarrow>
         fst (processUserInput rt e w issued u)
           = Inr (Obj [(js ''categories'',
                        Arr [Str (js ''food''), Str (js ''culture''), Str (js ''nature'')]),
                       (js ''location'', Str (js ''Montreal'')),
                       (js ''duration'', Num (Number 3)),
                       (js ''pace'', Str (js ''high'')),
                       (js ''budget'', Str (js ''high''))]))
   \<and> (w (length issued) (gemini_request e u) = Inr data \<longrightarrow>
         (\<exists>error. bindE (response_text rt data) as_text = Inl error) \<longrightarrow>
         fst (processUserInput rt e w issued u)
           = Inr (Obj [(js ''categories'',
                        Arr [Str (js ''food''), Str (js ''culture''), Str (js ''nature'')]),
                       (js ''location'', Str (js ''Montreal'')),
                       (js ''duration'', Num (Number 3)),
                       (js ''pace'', Str (js ''high'')),
                       (js ''budget'', Str (js ''high''))]))
   \<and> (w (length issued) (gemini_request e u) = Inr data \<longrightarrow>
         response_text rt data = Inr (Str t) \<longrightarrow>
         (\<exists>error. JSON_parse (extract_json (clean_text t)) = Inl error) \<longrightarrow>
         fst (processUserInput rt e w issued u)
           = Inr (Obj [(js ''categories'',
                        Arr [Str (js ''food''), Str (js ''culture''), Str (js ''nature'')]),
                       (js ''location'', Str (js ''Montreal'')),
                       (js ''duration'', Num (Number 3)),
                       (js ''pace'', Str (js ''high'')),
                       (js ''budget'', Str (js ''high''))]))
   \<and> (w (length issued) (gemini_request e u) = Inr data \<longrightarrow>
         response_text rt data = Inr (Str t) \<longrightarrow>
         123 \<notin> set t \<or> 125 \<notin> set t \<longrightarrow>
         fst (processUserInput rt e w issued u)
           = Inr (Obj [(js ''categories'',
                        Arr [Str (js ''food''), Str (js ''culture''), Str (js ''nature'')]),
                       (js ''location'', Str (js ''Montreal'')),
                       (js ''duration'', Num (Number 3)),
                       (js ''pace'', Str (js ''high'')),
                       (js ''budget'', Str (js ''high''))]))"
proof (unfold fallback_def [symmetric], intro conjI impI)
  show "\<exists>v. processUserInput rt e w issued u = (Inr v, issued @ [gemini_request e u])"
    unfolding processUserInput_answer by (simp split: sum.splits)
next
  assume "\<exists>error. w (length issued) (gemini_request e u) = Inl error"
  then show "fst (processUserInput rt e w issued u) = Inr fallback"
    unfolding processUserInput_answer by auto
next
  assume "w (length issued) (gemini_request e u) = Inr data"
    and "\<exists>error. bindE (response_text rt data) as_text = Inl error"
  then show "fst (processUserInput rt e w issued u) = Inr fallback"
    unfolding processUserInput_answer
    by (cases "response_text rt data") (auto simp: bindE_Inl_iff)
next
  assume "w (length issued) (gemini_request e u) = Inr data"
    and "response_text rt data = Inr (Str t)"
    and "\<exists>error. JSON_parse (extract_json (clean_text t)) = Inl error"
  then show "fst (processUserInput rt e w issued u) = Inr fallback"
    by (auto simp: processUserInput_text)
next
  assume "w (length issued) (gemini_request e u) = Inr data"
    and "response_text rt data = Inr (Str t)"
    and "123 \<notin> set t \<or> 125 \<notin> set t"
  then show "fst (processUserInput rt e w issued u) = Inr fallback"
    by (simp add: processUserInput_text no_braces_no_json)
qed

text \<open>
  Four runs: the call is rejected; the answer has no candidates; the text is cut before
  any closing brace; the text has its braces but is not JSON.
\<close>

theorem processUserInput_never_throws_witness:
  "fst (processUserInput example_runtime example_env rejecting_world [] (js ''two days in Paris''))
     = Inr (Obj [(js ''categories'',
                  Arr [Str (js ''food''), Str (js ''culture''), Str (js ''nature'')]),
                 (js ''location'', Str (js ''Montreal'')),
                 (js ''duration'', Num (Number 3)),
                 (js ''pace'', Str (js ''high'')),
                 (js ''budget'', Str (js ''high''))])
   \<and> fst (processUserInput example_runtime example_env quota_world [] (js ''two days in Paris''))
       = Inr (Obj [(js ''categories'',
                    Arr [Str (js ''food''), Str (js ''culture''), Str (js ''nature'')]),
                   (js ''location'', Str (js ''Montreal'')),
                   (js ''duration'', Num (Number 3)),
                   (js ''pace'', Str (js ''high'')),
                   (js ''budget'', Str (js ''high''))])
   \<and> fst (processUserInput example_runtime example_env (text_world truncated_text) []
            (js ''two days in Paris''))
       = Inr (Obj [(js ''categories'',
                    Arr [Str (js ''food''), Str (js ''culture''), Str (js ''nature'')]),
                   (js ''location'', Str (js ''Montreal'')),
                   (js ''duration'', Num (Number 3)),
                   (js ''pace'', Str (js ''high'')),
                   (js ''budget'', Str (js ''high''))])
   \<and> fst (processUserInput example_runtime example_env (text_world unbalanced_text) []
            (js ''two days in Paris''))
       = Inr (Obj [(js ''categories'',
                    Arr [Str (js ''food''), Str (js ''culture''), Str (js ''nature'')]),
                   (js ''location'', Str (js ''Montreal'')),
                   (js ''duration'', Num (Number 3)),
                   (js ''pace'', Str (js ''high'')),
                   (js ''budget'', Str (js ''high''))])"
proof -
  let ?u = "js ''two days in Paris''"
  have 1: "fst (processUserInput example_runtime example_env rejecting_world [] ?u) = Inr fallback"
    using processUserInput_never_throws
      [where rt = example_runtime and e = example_env and w = rejecting_world
         and issued = "[]" and u = ?u]
    by (simp add: rejecting_world_def fallback_def)
  have "bindE (response_text example_runtime (Obj [(js ''error'', Str (js ''quota''))])) as_text
          = Inl TypeError"
    by (simp add: response_text_def)
  then have 2: "fst (processUserInput example_runtime example_env quota_world [] ?u) = Inr fallback"
    using processUserInput_never_throws
      [where rt = example_runtime and e = example_env and w = quota_world
         and issued = "[]" and u = ?u and data = "Obj [(js ''error'', Str (js ''quota''))]"]
    by (simp add: quota_world_def fallback_def)
  have "125 \<notin> set truncated_text"
    by (simp add: truncated_text_def js_def)
  then have 3: "fst (processUserInput example_runtime example_env (text_world truncated_text) [] ?u)
                  = Inr fallback"
    using processUserInput_never_throws
      [where rt = example_runtime and e = example_env and w = "text_world truncated_text"
         and issued = "[]" and u = ?u and data = "gemini_answer truncated_text"
         and t = truncated_text]
    by (simp add: text_world_def fallback_def)
  have "extract_json (clean_text unbalanced_text) = unbalanced_text"
    by (simp add: unbalanced_text_def clean_text_def fence_def js_def trim_def is_space_def
      extract_json_def slice_def lastIndexOf_def Let_def)
  moreover have "JSON_parse unbalanced_text = Inl SyntaxError"
    unfolding unbalanced_text_def by (simp add: parse_eval)
  ultimately have 4: "fst (processUserInput example_runtime example_env (text_world unbalanced_text)
                             [] ?u) = Inr fallback"
    using processUserInput_never_throws
      [where rt = example_runtime and e = example_env and w = "text_world unbalanced_text"
         and issued = "[]" and u = ?u and data = "gemini_answer unbalanced_text"
         and t = unbalanced_text]
    by (simp add: text_world_def fallback_def)
  from 1 2 3 4 show ?thesis unfolding fallback_def by simp
qed

text \<open>
  C2, amended. When the preferences \<^verbatim>\<open>processUserInput\<close> returns have an array of \<open>C\<close>
  categories and the duration \<open>D\<close>, a natural number, and every category's search
  returns a list: if \<open>D\<close> is at most \<open>2^32 - 1\<close> (the longest array \<^verbatim>\<open>Array.from\<close>
  creates), \<^verbatim>\<open>generateTrip\<close> returns a plan whose itinerary has exactly \<open>D\<close> days, the
  \<open>k\<close>-th with the day number \<open>k + 1\<close> and at most \<open>C\<close> places; beyond, it throws a
  RangeError.
\<close>

theorem generateTrip_itinerary_days:
  assumes "processUserInput rt e w [] u = (Inr prefs, issued1)"
    and "get_prop prefs (js ''categories'') = Inr (Arr cats)"
    and "get_prop prefs (js ''duration'') = Inr (Num (Number (of_nat D)))"
    and "fst (search_all e w prefs cats issued1) = map (\<lambda>xs. Inr (Arr xs)) xss"
  shows "(D < 2 ^ 32 \<longrightarrow>
            (\<exists>days. fst (generateTrip rt e w u)
                      = Inr (Obj [(js ''preferences'', prefs), (js ''itinerary'', Arr days)])
               \<and> length days = D
               \<and> (\<forall>k<D. field (days ! k) (js ''day'') = Num (Number (of_nat k + 1))
                      \<and> (\<exists>ps. field (days ! k) (js ''places'') = Arr ps
                            \<and> length ps \<le> length cats))))
         \<and> (2 ^ 32 \<le> D \<longrightarrow> fst (generateTrip rt e w u) = Inl RangeError)"
proof (intro conjI impI)
  assume d: "D < 2 ^ 32"
  have "length (fst (search_all e w prefs cats issued1)) = length cats"
    by (rule length_search_all)
  with assms(4) have l: "length xss = length cats" by simp
  have "length (filter truthy (map f xss)) \<le> length cats" for f :: "jsval list \<Rightarrow> jsval"
    using length_filter_le [of truthy "map f xss"] l by simp
  then show "\<exists>days. fst (generateTrip rt e w u)
                      = Inr (Obj [(js ''preferences'', prefs), (js ''itinerary'', Arr days)])
               \<and> length days = D
               \<and> (\<forall>k<D. field (days ! k) (js ''day'') = Num (Number (of_nat k + 1))
                      \<and> (\<exists>ps. field (days ! k) (js ''places'') = Arr ps
                            \<and> length ps \<le> length cats))"
    unfolding generateTrip_plan [OF assms(1-3) d assms(4)] by simp
next
  assume "2 ^ 32 \<le> D"
  then have a: "array_from rt (Num (Number (of_nat D))) f = Inl RangeError" for f
    by (rule array_from_too_long)
  have "promise_all (fst (search_all e w prefs cats issued1)) = Inr (map Arr xss)"
    unfolding assms(4) by (rule promise_all_Inr)
  then show "fst (generateTrip rt e w u) = Inl RangeError"
    unfolding generateTrip_try_searches [OF assms(1,2)] by (simp add: assms(3) a)
qed

text \<open>
  The example world: three categories, six days.
\<close>

theorem generateTrip_itinerary_days_witness:
  "\<exists>days. fst (generateTrip example_runtime example_env example_world (js ''six days in X''))
              = Inr (Obj [(js ''preferences'', example_preferences), (js ''itinerary'', Arr days)])
          \<and> length days = 6
          \<and> field (days ! 0) (js ''day'') = Num (Number 1)
          \<and> field (days ! 5) (js ''day'') = Num (Number 6)"
proof -
  from generateTrip_itinerary_days
    [where rt = example_runtime and e = example_env and u = "js ''six days in X''",
     OF example_processUserInput example_categories example_duration example_search_all]
    six_days
  obtain days where
    d: "fst (generateTrip example_runtime example_env example_world (js ''six days in X''))
          = Inr (Obj [(js ''preferences'', example_preferences), (js ''itinerary'', Arr days)])"
      "length days = 6"
    and k: "\<forall>k<6. field (days ! k) (js ''day'') = Num (Number (of_nat k + 1))
              \<and> (\<exists>ps. field (days ! k) (js ''places'') = Arr ps
                    \<and> length ps \<le> length [Str (js ''a''), Str (js ''b''), Str (js ''c'')])"
    by blast
  from k have "field (days ! 0) (js ''day'') = Num (Number (of_nat 0 + 1))"
    "field (days ! 5) (js ''day'') = Num (Number (of_nat 5 + 1))"
    by simp_all
  with d show ?thesis by auto
qed

text \<open>
  C2 as stated fails for a duration of \<open>2^32\<close>: the preferences conform to the
  TripPreferences shape and the one search succeeds, yet \<^verbatim>\<open>Array.from\<close> throws a
  RangeError and \<^verbatim>\<open>generateTrip\<close> returns no plan.
\<close>

theorem generateTrip_itinerary_days_counterexample:
  "fst (processUserInput example_runtime example_env long_trip_world [] (js ''a long trip''))
     = Inr long_trip_preferences
   \<and> conforms long_trip_preferences
   \<and> field long_trip_preferences (js ''duration'') = Num (Number 4294967296)
   \<and> fst (search_all example_env long_trip_world long_trip_preferences [Str (js ''a'')]
             [gemini_request example_env (js ''a long trip'')])
       = [Inr (Arr [Str (js ''a0'')])]
   \<and> fst (generateTrip example_runtime example_env long_trip_world (js ''a long trip''))
       = Inl RangeError"
proof -
  have c: "get_prop long_trip_preferences (js ''categories'') = Inr (Arr [Str (js ''a'')])"
    by (simp add: long_trip_preferences_def)
  have n: "get_prop long_trip_preferences (js ''location'') = Inr (Str (js ''X''))"
    by (simp add: long_trip_preferences_def)
  have d: "get_prop long_trip_preferences (js ''duration'') = Inr (Num (Number (of_nat 4294967296)))"
    by (simp add: long_trip_preferences_def)
  have s: "fst (search_all example_env long_trip_world long_trip_preferences [Str (js ''a'')]
             [gemini_request example_env (js ''a long trip'')])
       = [Inr (Arr [Str (js ''a0'')])]"
    by (simp add: search_all_eq [OF n] long_trip_world_def)
  have "(2::nat) ^ 32 \<le> 4294967296" by simp
  then have a: "array_from example_runtime (Num (Number (of_nat 4294967296))) f = Inl RangeError" for f
    by (rule array_from_too_long)
  have g: "fst (generateTrip example_runtime example_env long_trip_world (js ''a long trip''))
       = Inl RangeError"
    unfolding generateTrip_try_searches [OF long_trip_processUserInput c]
    by (simp add: s promise_all_def d a del: of_nat_numeral)
  have "conforms long_trip_preferences"
    by (simp add: conforms_def long_trip_preferences_def is_level_def)
  with s g show ?thesis
    by (simp add: long_trip_processUserInput) (simp add: long_trip_preferences_def)
qed

text \<open>
  C3. In a plan \<^verbatim>\<open>generateTrip\<close> returns, the places of the day of index \<open>i\<close> are, category
  by category, the element of index \<open>i mod L\<close> of each result list of non-zero length
  \<open>L\<close> (kept when it is truthy): that element is what line 143 selects.
\<close>

theorem generateTrip_round_robin:
  assumes "processUserInput rt e w [] u = (Inr prefs, issued1)"
    and "get_prop prefs (js ''categories'') = Inr (Arr cats)"
    and "get_prop prefs (js ''duration'') = Inr (Num (Number (of_nat D)))"
    and "D < 2 ^ 32"
    and "fst (search_all e w prefs cats issued1) = map (\<lambda>xs. Inr (Arr xs)) xss"
    and "i < D"
  shows "\<exists>days. fst (generateTrip rt e w u)
                  = Inr (Obj [(js ''preferences'', prefs), (js ''itinerary'', Arr days)])
           \<and> field (days ! i) (js ''places'')
               = Arr (concat (map (\<lambda>xs. if xs = [] then []
                                         else filter truthy [xs ! (i mod length xs)]) xss))
           \<and> (\<forall>j<length xss. xss ! j \<noteq> [] \<longrightarrow>
                  pick rt i (Arr (xss ! j)) = Inr (xss ! j ! (i mod length (xss ! j))))"
proof -
  let ?day = "\<lambda>i. Obj [(js ''day'', Num (Number (of_nat i + 1))),
                       (js ''places'', Arr (filter truthy (map (\<lambda>xs. if xs = [] then Undefined else xs ! (i mod length xs)) xss)))]"
  have "fst (generateTrip rt e w u)
          = Inr (Obj [(js ''preferences'', prefs), (js ''itinerary'', Arr (map ?day [0 ..< D]))])"
    by (rule generateTrip_plan [OF assms(1-5)])
  moreover have "field (map ?day [0 ..< D] ! i) (js ''places'')
          = Arr (concat (map (\<lambda>xs. if xs = [] then []
                                         else filter truthy [xs ! (i mod length xs)]) xss))"
    unfolding nth_days [OF assms(6)] by (simp add: picked_concat)
  moreover have "\<forall>j<length xss. xss ! j \<noteq> [] \<longrightarrow>
                  pick rt i (Arr (xss ! j)) = Inr (xss ! j ! (i mod length (xss ! j)))"
    by (simp add: pick_Arr)
  ultimately show ?thesis by blast
qed

text \<open>
  Result lists of lengths 3 and 5 (and an empty third), six days: the day of index 4
  has the element 1 of the first and the element 4 of the second.
\<close>

theorem generateTrip_round_robin_witness:
  "\<exists>days. fst (generateTrip example_runtime example_env example_world (js ''six days in X''))
              = Inr (Obj [(js ''preferences'', example_preferences), (js ''itinerary'', Arr days)])
          \<and> field (days ! 4) (js ''places'') = Arr [Str (js ''a1''), Str (js ''b4'')]"
proof -
  let ?xss = "[[Str (js ''a0''), Str (js ''a1''), Str (js ''a2'')],
          [Str (js ''b0''), Null, Str (js ''b2''), Str (js ''b3''), Str (js ''b4'')],
          []]"
  have "(4::nat) < 6" by simp
  from generateTrip_round_robin
    [where rt = example_runtime and e = example_env and u = "js ''six days in X''",
     OF example_processUserInput example_categories example_duration six_days example_search_all this]
  obtain days where
    d: "fst (generateTrip example_runtime example_env example_world (js ''six days in X''))
          = Inr (Obj [(js ''preferences'', example_preferences), (js ''itinerary'', Arr days)])"
    and p: "field (days ! 4) (js ''places'')
              = Arr (concat (map (\<lambda>xs. if xs = [] then []
                                         else filter truthy [xs ! (4 mod length xs)]) ?xss))"
    by blast
  from p have "field (days ! 4) (js ''places'') = Arr [Str (js ''a1''), Str (js ''b4'')]"
    by (simp add: js_def)
  with d show ?thesis by blast
qed

text \<open>
  C4. When the HTTP call of \<^verbatim>\<open>searchPlaces\<close> is rejected, \<^verbatim>\<open>searchPlaces\<close> throws that
  error; and when the search of one category is rejected, that search's outcome is the
  error, and \<^verbatim>\<open>generateTrip\<close> throws: it returns no plan.
\<close>

theorem search_failure_propagates:
  assumes "processUserInput rt e w [] u = (Inr prefs, issued1)"
    and "get_prop prefs (js ''categories'') = Inr (Arr cats)"
    and "j < length cats"
    and "w (length issued1 + j)
           (places_request e (search_params (cats ! j) (field prefs (js ''location'')))) = Inl err"
  shows "(w (length issued) (places_request e params) = Inl err0 \<longrightarrow>
            fst (searchPlaces e w issued params) = Inl err0)
         \<and> fst (search_all e w prefs cats issued1) ! j = Inl err
         \<and> (\<exists>err'. fst (generateTrip rt e w u) = Inl err')"
proof (intro conjI)
  show "w (length issued) (places_request e params) = Inl err0 \<longrightarrow>
          fst (searchPlaces e w issued params) = Inl err0"
    by (simp add: searchPlaces_fst)
next
  have near: "get_prop prefs (js ''location'') = Inr (field prefs (js ''location''))"
    using assms(2) by (rule get_prop_Arr_object)
  let ?outcomes = "fst (search_all e w prefs cats issued1)"
  have l: "length ?outcomes = length cats" by (rule length_search_all)
  show o: "?outcomes ! j = Inl err"
    using assms(3,4) by (simp add: search_all_eq [OF near])
  from promise_all_Inl [of j ?outcomes err] assms(3) l o obtain err' where
    p: "promise_all ?outcomes = Inl err'"
    by auto
  have "fst (generateTrip rt e w u) = Inl err'"
    unfolding generateTrip_try_searches [OF assms(1,2)] by (simp add: p)
  then show "\<exists>err'. fst (generateTrip rt e w u) = Inl err'" ..
qed

text \<open>
  The example world with the second search rejected.
\<close>

theorem search_failure_propagates_witness:
  "fst (searchPlaces example_env failing_world
          [gemini_request example_env (js ''six days in X''),
           places_request example_env (search_params (Str (js ''a'')) (Str (js ''X'')))]
          (search_params (Str (js ''b'')) (Str (js ''X''))))
     = Inl (HttpError (js ''Request failed with status code 500''))
   \<and> (\<exists>err'. fst (generateTrip example_runtime example_env failing_world (js ''six days in X''))
                 = Inl err')"
proof -
  let ?cats = "[Str (js ''a''), Str (js ''b''), Str (js ''c'')]"
  have j: "1 < length ?cats" by simp
  have f: "failing_world (length [gemini_request example_env (js ''six days in X'')] + 1)
             (places_request example_env
                (search_params (?cats ! 1) (field example_preferences (js ''location''))))
           = Inl (HttpError (js ''Request failed with status code 500''))"
    by (simp add: failing_world_def)
  have f': "failing_world
              (length [gemini_request example_env (js ''six days in X''),
                 places_request example_env (search_params (Str (js ''a'')) (Str (js ''X'')))])
              (places_request example_env (search_params (Str (js ''b'')) (Str (js ''X''))))
            = Inl (HttpError (js ''Request failed with status code 500''))"
    by (simp add: failing_world_def)
  from search_failure_propagates
    [where rt = example_runtime and e = example_env and u = "js ''six days in X''"
       and issued = "[gemini_request example_env (js ''six days in X''),
           places_request example_env (search_params (Str (js ''a'')) (Str (js ''X'')))]"
       and params = "search_params (Str (js ''b'')) (Str (js ''X''))"
       and ?err0.0 = "HttpError (js ''Request failed with status code 500'')",
     OF failing_processUserInput example_categories j f]
  show ?thesis using f' by simp
qed

text \<open>
  C5, amended. \<^verbatim>\<open>processUserInput\<close> always returns an object: the fallback, which
  conforms to the TripPreferences shape, or the object \<^verbatim>\<open>JSON.parse\<close> makes of the
  cleaned text between the first opening and the last closing brace, whose members are
  not checked.
\<close>

theorem processUserInput_returns_object:
  "\<exists>v. fst (processUserInput rt e w issued u) = Inr v
       \<and> is_object v
       \<and> (v = fallback
          \<or> (\<exists>data t. w (length issued) (gemini_request e u) = Inr data
                \<and> response_text rt data = Inr (Str t)
                \<and> JSON_parse (extract_json (clean_text t)) = Inr v))
       \<and> conforms fallback"
proof -
  have f: "is_object fallback" "conforms fallback"
    by (simp_all add: fallback_def conforms_def is_level_def)
  show ?thesis
  proof (cases "w (length issued) (gemini_request e u)")
    case (Inl error)
    with f show ?thesis by (simp add: processUserInput_answer)
  next
    case a: (Inr data)
    show ?thesis
    proof (cases "response_text rt data")
      case (Inl error)
      with a f show ?thesis by (simp add: processUserInput_answer)
    next
      case r: (Inr gen)
      show ?thesis
      proof (cases "as_text gen")
        case (Inl error)
        with a r f show ?thesis by (simp add: processUserInput_answer)
      next
        case (Inr t)
        then have g: "gen = Str t"
          by (cases gen) (simp_all add: as_text_def)
        show ?thesis
        proof (cases "JSON_parse (extract_json (clean_text t))")
          case (Inl error)
          with a r g f show ?thesis by (simp add: processUserInput_text)
        next
          case p: (Inr v)
          then have "is_object v" by (rule JSON_parse_extract_object)
          with a r g f p show ?thesis by (simp add: processUserInput_text)
        qed
      qed
    qed
  qed
qed

text \<open>
  C5 as stated fails when the generative endpoint answers \<^verbatim>\<open>{}\<close>: the value returned is
  the empty object, which has none of the five fields.
\<close>

theorem processUserInput_shape_counterexample:
  "fst (processUserInput example_runtime example_env (text_world empty_object_text) []
          (js ''two days in Paris''))
     = Inr (Obj [])
   \<and> \<not> conforms (Obj [])"
proof -
  have "extract_json (clean_text empty_object_text) = empty_object_text"
    by (simp add: empty_object_text_def clean_text_def fence_def js_def trim_def is_space_def
      extract_json_def slice_def lastIndexOf_def Let_def)
  moreover have "JSON_parse empty_object_text = Inr (Obj [])"
    unfolding empty_object_text_def by (simp add: parse_eval)
  ultimately show ?thesis
    by (simp add: processUserInput_answer text_world_def as_text_def conforms_def)
qed




text \<open>
  C7. When the search of some category returns the empty list (and the others return
  lists), \<^verbatim>\<open>generateTrip\<close> still returns its plan, and each day of it is the day built
  from the result lists of the other categories alone. Whatever the other searches
  returned, an empty list among the results leaves the outcome of every day as it is
  without that list: reading an element of it never throws and adds no entry.
\<close>

theorem generateTrip_empty_results:
  assumes "processUserInput rt e w [] u = (Inr prefs, issued1)"
    and "get_prop prefs (js ''categories'') = Inr (Arr cats)"
    and "get_prop prefs (js ''duration'') = Inr (Num (Number (of_nat D)))"
    and "D < 2 ^ 32"
    and "fst (search_all e w prefs cats issued1) = map (\<lambda>xs. Inr (Arr xs)) xss"
    and "j < length xss"
    and "xss ! j = []"
  shows "(\<exists>days. fst (generateTrip rt e w u)
                  = Inr (Obj [(js ''preferences'', prefs), (js ''itinerary'', Arr days)])
           \<and> length days = D
           \<and> (\<forall>i<D. itinerary_day rt (map Arr (take j xss @ drop (Suc j) xss)) i = Inr (days ! i)))
         \<and> (\<forall>rs i. length rs = length xss \<and> rs ! j = Arr [] \<longrightarrow>
              itinerary_day rt rs i = itinerary_day rt (take j rs @ drop (Suc j) rs) i)"
proof (rule conjI)
  let ?day = "\<lambda>i. Obj [(js ''day'', Num (Number (of_nat i + 1))),
                       (js ''places'', Arr (filter truthy (map (\<lambda>xs. if xs = [] then Undefined else xs ! (i mod length xs)) xss)))]"
  have "fst (generateTrip rt e w u)
          = Inr (Obj [(js ''preferences'', prefs), (js ''itinerary'', Arr (map ?day [0 ..< D]))])"
    by (rule generateTrip_plan [OF assms(1-5)])
  moreover have "length (map ?day [0 ..< D]) = D" by simp
  moreover have "itinerary_day rt (map Arr (take j xss @ drop (Suc j) xss)) i
                   = Inr (map ?day [0 ..< D] ! i)" if "i < D" for i
    unfolding nth_days [OF that] itinerary_day_Arr picked_without [OF assms(6,7)] ..
  ultimately show "\<exists>days. fst (generateTrip rt e w u)
                  = Inr (Obj [(js ''preferences'', prefs), (js ''itinerary'', Arr days)])
           \<and> length days = D
           \<and> (\<forall>i<D. itinerary_day rt (map Arr (take j xss @ drop (Suc j) xss)) i = Inr (days ! i))"
    by blast
  show "\<forall>rs i. length rs = length xss \<and> rs ! j = Arr [] \<longrightarrow>
           itinerary_day rt rs i = itinerary_day rt (take j rs @ drop (Suc j) rs) i"
    using assms(6) by (auto intro: itinerary_day_without_empty)
qed

text \<open>
  The example world, whose third category has no results.
\<close>

theorem generateTrip_empty_results_witness:
  "\<exists>days. fst (generateTrip example_runtime example_env example_world (js ''six days in X''))
              = Inr (Obj [(js ''preferences'', example_preferences), (js ''itinerary'', Arr days)])
          \<and> length days = 6
          \<and> itinerary_day example_runtime
               [Arr [Str (js ''a0''), Str (js ''a1''), Str (js ''a2'')],
                Arr [Str (js ''b0''), Null, Str (js ''b2''), Str (js ''b3''), Str (js ''b4'')]] 3
             = Inr (days ! 3)"
proof -
  let ?xss = "[[Str (js ''a0''), Str (js ''a1''), Str (js ''a2'')],
          [Str (js ''b0''), Null, Str (js ''b2''), Str (js ''b3''), Str (js ''b4'')],
          []]"
  have j: "2 < length ?xss" "?xss ! 2 = []" by simp_all
  from generateTrip_empty_results
    [where rt = example_runtime and e = example_env and u = "js ''six days in X''",
     OF example_processUserInput example_categories example_duration six_days example_search_all j,
     THEN conjunct1]
  obtain days where
    d: "fst (generateTrip example_runtime example_env example_world (js ''six days in X''))
          = Inr (Obj [(js ''preferences'', example_preferences), (js ''itinerary'', Arr days)])"
      "length days = 6"
    and k: "\<forall>i<6. itinerary_day example_runtime (map Arr (take 2 ?xss @ drop (Suc 2) ?xss)) i
                     = Inr (days ! i)"
    by blast
  from k have "itinerary_day example_runtime (map Arr (take 2 ?xss @ drop (Suc 2) ?xss)) 3
                 = Inr (days ! 3)"
    by simp
  with d show ?thesis by auto
qed

text \<open>
  C8. The requests \<^verbatim>\<open>generateTrip\<close> issues are the one to the generative endpoint and
  then, for each category in order, one to the places endpoint with the parameters
  \<^verbatim>\<open>query\<close> (the category), \<^verbatim>\<open>near\<close> (the location of the preferences), \<^verbatim>\<open>limit\<close> 5
  and \<^verbatim>\<open>sort\<close> RATING. \<^verbatim>\<open>searchPlaces\<close> issues one request, and when it is answered
  returns the \<^verbatim>\<open>results\<close> of the answer's data.
\<close>

theorem generateTrip_requests:
  assumes "processUserInput rt e w [] u = (Inr prefs, issued1)"
    and "get_prop prefs (js ''categories'') = Inr (Arr cats)"
  shows "snd (generateTrip rt e w u) =
           gemini_request e u
           # map (\<lambda>category.
                    places_request e
                      (Obj [(js ''query'', category),
                            (js ''near'', field prefs (js ''location'')),
                            (js ''limit'', Num (Number 5)),
                            (js ''sort'', Str (js ''RATING''))]))
               cats
         \<and> (\<exists>url headers. \<forall>params. places_request e params = Get url headers params)
         \<and> snd (searchPlaces e w issued params) = issued @ [places_request e params]
         \<and> (w (length issued) (places_request e params) = Inr data \<longrightarrow>
              fst (searchPlaces e w issued params) = get_prop data (js ''results''))"
proof (intro conjI)
  have near: "get_prop prefs (js ''location'') = Inr (field prefs (js ''location''))"
    using assms(2) by (rule get_prop_Arr_object)
  have "snd (processUserInput rt e w [] u) = [] @ [gemini_request e u]"
    by (rule processUserInput_issued)
  with assms(1) have i: "issued1 = [gemini_request e u]" by simp
  show "snd (generateTrip rt e w u) =
           gemini_request e u
           # map (\<lambda>category.
                    places_request e
                      (Obj [(js ''query'', category),
                            (js ''near'', field prefs (js ''location'')),
                            (js ''limit'', Num (Number 5)),
                            (js ''sort'', Str (js ''RATING''))]))
               cats"
    unfolding generateTrip_try_searches [OF assms(1,2)] search_all_eq [OF near] i
    by (simp add: search_params_def)
next
  show "\<exists>url headers. \<forall>params. places_request e params = Get url headers params"
    unfolding places_request_def by blast
next
  show "snd (searchPlaces e w issued params) = issued @ [places_request e params]"
    by (rule searchPlaces_snd)
next
  show "w (length issued) (places_request e params) = Inr data \<longrightarrow>
              fst (searchPlaces e w issued params) = get_prop data (js ''results'')"
    by (simp add: searchPlaces_fst)
qed

text \<open>
  The four requests of the example world, and the results of its first search.
\<close>

theorem generateTrip_requests_witness:
  "snd (generateTrip example_runtime example_env example_world (js ''six days in X''))
     = [gemini_request example_env (js ''six days in X''),
        places_request example_env
          (Obj [(js ''query'', Str (js ''a'')), (js ''near'', Str (js ''X'')),
                (js ''limit'', Num (Number 5)), (js ''sort'', Str (js ''RATING''))]),
        places_request example_env
          (Obj [(js ''query'', Str (js ''b'')), (js ''near'', Str (js ''X'')),
                (js ''limit'', Num (Number 5)), (js ''sort'', Str (js ''RATING''))]),
        places_request example_env
          (Obj [(js ''query'', Str (js ''c'')), (js ''near'', Str (js ''X'')),
                (js ''limit'', Num (Number 5)), (js ''sort'', Str (js ''RATING''))])]
   \<and> fst (searchPlaces example_env example_world
            [gemini_request example_env (js ''six days in X'')]
            (search_params (Str (js ''a'')) (Str (js ''X''))))
       = Inr (Arr [Str (js ''a0''), Str (js ''a1''), Str (js ''a2'')])"
proof -
  have a: "example_world (length [gemini_request example_env (js ''six days in X'')])
             (places_request example_env (search_params (Str (js ''a'')) (Str (js ''X''))))
           = Inr (places_answer [Str (js ''a0''), Str (js ''a1''), Str (js ''a2'')])"
    by (simp add: example_world_def)
  from generateTrip_requests
    [where rt = example_runtime and e = example_env and u = "js ''six days in X''"
       and w = example_world
       and issued = "[gemini_request example_env (js ''six days in X'')]"
       and params = "search_params (Str (js ''a'')) (Str (js ''X''))"
       and data = "places_answer [Str (js ''a0''), Str (js ''a1''), Str (js ''a2'')]",
     OF example_processUserInput example_categories]
  show ?thesis using a by (simp add: example_location)
qed

text \<open>
  C9. When the world answers the search for the \<open>j\<close>-th category with the list
  \<open>xss ! j\<close>, the places of the day of index \<open>i\<close> are the selected elements in the order
  of the categories, those of an empty list and the falsy ones left out.
\<close>

theorem generateTrip_places_order:
  assumes "processUserInput rt e w [] u = (Inr prefs, issued1)"
    and "get_prop prefs (js ''categories'') = Inr (Arr cats)"
    and "get_prop prefs (js ''duration'') = Inr (Num (Number (of_nat D)))"
    and "D < 2 ^ 32"
    and "length xss = length cats"
    and "\<forall>j<length cats. \<exists>data.
           w (length issued1 + j)
             (places_request e (search_params (cats ! j) (field prefs (js ''location'')))) = Inr data
           \<and> get_prop data (js ''results'') = Inr (Arr (xss ! j))"
    and "i < D"
  shows "\<exists>days. fst (generateTrip rt e w u)
                  = Inr (Obj [(js ''preferences'', prefs), (js ''itinerary'', Arr days)])
           \<and> field (days ! i) (js ''places'')
               = Arr (map (\<lambda>j. xss ! j ! (i mod length (xss ! j)))
                        (filter (\<lambda>j. xss ! j \<noteq> [] \<and> truthy (xss ! j ! (i mod length (xss ! j))))
                           [0 ..< length cats]))"
proof -
  let ?day = "\<lambda>i. Obj [(js ''day'', Num (Number (of_nat i + 1))),
                       (js ''places'', Arr (filter truthy (map (\<lambda>xs. if xs = [] then Undefined else xs ! (i mod length xs)) xss)))]"
  have near: "get_prop prefs (js ''location'') = Inr (field prefs (js ''location''))"
    using assms(2) by (rule get_prop_Arr_object)
  have s: "fst (search_all e w prefs cats issued1) = map (\<lambda>xs. Inr (Arr xs)) xss"
    using near assms(5,6) by (rule search_all_answers)
  have "fst (generateTrip rt e w u)
          = Inr (Obj [(js ''preferences'', prefs), (js ''itinerary'', Arr (map ?day [0 ..< D]))])"
    by (rule generateTrip_plan [OF assms(1-4) s])
  moreover have "field (map ?day [0 ..< D] ! i) (js ''places'')
          = Arr (map (\<lambda>j. xss ! j ! (i mod length (xss ! j)))
                        (filter (\<lambda>j. xss ! j \<noteq> [] \<and> truthy (xss ! j ! (i mod length (xss ! j))))
                           [0 ..< length cats]))"
    unfolding nth_days [OF assms(7)] assms(5) [symmetric] by (simp add: picked_indices)
  ultimately show ?thesis by blast
qed

text \<open>
  In the example world the second list has \<^verbatim>\<open>null\<close> at index 1 and the third is empty.
\<close>

theorem generateTrip_places_order_witness:
  "\<exists>days. fst (generateTrip example_runtime example_env example_world (js ''six days in X''))
              = Inr (Obj [(js ''preferences'', example_preferences), (js ''itinerary'', Arr days)])
          \<and> field (days ! 1) (js ''places'') = Arr [Str (js ''a1'')]
          \<and> field (days ! 2) (js ''places'') = Arr [Str (js ''a2''), Str (js ''b2'')]"
proof -
  let ?xss = "[[Str (js ''a0''), Str (js ''a1''), Str (js ''a2'')],
          [Str (js ''b0''), Null, Str (js ''b2''), Str (js ''b3''), Str (js ''b4'')],
          []]"
  let ?cats = "[Str (js ''a''), Str (js ''b''), Str (js ''c'')]"
  have l: "length ?xss = length ?cats" by simp
  have u: "[0 ..< length ?cats] = [0, 1, 2]"
    by (simp add: upt_conv_Cons)
  have "(1::nat) < 6" by simp
  from generateTrip_places_order
    [where rt = example_runtime and e = example_env and u = "js ''six days in X''",
     OF example_processUserInput example_categories example_duration six_days l
       example_answers this]
  obtain days where
    d: "fst (generateTrip example_runtime example_env example_world (js ''six days in X''))
          = Inr (Obj [(js ''preferences'', example_preferences), (js ''itinerary'', Arr days)])"
    and p: "field (days ! 1) (js ''places'')
              = Arr (map (\<lambda>j. ?xss ! j ! (1 mod length (?xss ! j)))
                        (filter (\<lambda>j. ?xss ! j \<noteq> [] \<and> truthy (?xss ! j ! (1 mod length (?xss ! j))))
                           [0 ..< length ?cats]))"
    by blast
  have "(2::nat) < 6" by simp
  from generateTrip_places_order
    [where rt = example_runtime and e = example_env and u = "js ''six days in X''",
     OF example_processUserInput example_categories example_duration six_days l
       example_answers this]
  obtain days' where
    d': "fst (generateTrip example_runtime example_env example_world (js ''six days in X''))
          = Inr (Obj [(js ''preferences'', example_preferences), (js ''itinerary'', Arr days')])"
    and p': "field (days' ! 2) (js ''places'')
              = Arr (map (\<lambda>j. ?xss ! j ! (2 mod length (?xss ! j)))
                        (filter (\<lambda>j. ?xss ! j \<noteq> [] \<and> truthy (?xss ! j ! (2 mod length (?xss ! j))))
                           [0 ..< length ?cats]))"
    by blast
  from d d' have "days' = days" by simp
  from p have 1: "field (days ! 1) (js ''places'') = Arr [Str (js ''a1'')]"
    unfolding u by (simp add: js_def)
  from p' have 2: "field (days ! 2) (js ''places'') = Arr [Str (js ''a2''), Str (js ''b2'')]"
    unfolding u \<open>days' = days\<close> by (simp add: js_def)
  from d 1 2 show ?thesis by blast
qed

text \<open>
  C10. In every plan \<^verbatim>\<open>generateTrip\<close> returns, whatever the searches returned, every
  place of every day is truthy.
\<close>

theorem generateTrip_places_truthy:
  assumes "fst (generateTrip rt e w u) = Inr plan"
  shows "\<exists>days. field plan (js ''itinerary'') = Arr days
           \<and> (\<forall>d\<in>set days. \<exists>ps. field d (js ''places'') = Arr ps \<and> (\<forall>p\<in>set ps. truthy p))"
proof -
  from generateTrip_Inr [OF assms] obtain prefs placesResults duration itinerary where
    plan: "plan = Obj [(js ''preferences'', prefs), (js ''itinerary'', itinerary)]"
    and a: "array_from rt duration (itinerary_day rt placesResults) = Inr itinerary"
    by blast
  from array_from_Inr [OF a] obtain days n where
    d: "itinerary = Arr days"
    and l: "list_all2 (\<lambda>i x. itinerary_day rt placesResults i = Inr x) [0 ..< n] days"
    by blast
  have "\<exists>ps. field x (js ''places'') = Arr ps \<and> (\<forall>p\<in>set ps. truthy p)" if "x \<in> set days" for x
  proof -
    from that l obtain i where "itinerary_day rt placesResults i = Inr x"
      by (auto simp: list_all2_conv_all_nth in_set_conv_nth)
    from itinerary_day_Inr [OF this] obtain picked where
      "x = Obj [(js ''day'', Num (Number (of_nat i + 1))),
                (js ''places'', Arr (filter truthy picked))]"
      by blast
    then show ?thesis by simp
  qed
  with plan d show ?thesis by simp
qed

text \<open>
  The plan of the example world, where a result list holds \<^verbatim>\<open>null\<close>.
\<close>

theorem generateTrip_places_truthy_witness:
  "\<exists>plan days. fst (generateTrip example_runtime example_env example_world (js ''six days in X''))
                   = Inr plan
          \<and> field plan (js ''itinerary'') = Arr days
          \<and> length days = 6
          \<and> (\<forall>d\<in>set days. \<exists>ps. field d (js ''places'') = Arr ps \<and> (\<forall>p\<in>set ps. truthy p))"
proof -
  from generateTrip_plan
    [OF example_processUserInput example_categories example_duration six_days example_search_all]
  obtain plan where
    g: "fst (generateTrip example_runtime example_env example_world (js ''six days in X'')) = Inr plan"
    and l: "\<exists>days. field plan (js ''itinerary'') = Arr days \<and> length days = 6"
    by simp
  from generateTrip_places_truthy [OF g] l g show ?thesis
    by auto
qed

end
